theory Spec2Isabelle
  imports Complex_Main
begin

section \<open>Numbers, coordinates and shapes\<close>

text \<open>
  The C++ \<^verbatim>\<open>double\<close>. The three kinds of non-finite value are kept apart from the
  finite ones, and the arithmetic on them follows IEEE 754 (any operation on a NaN
  is a NaN, \<open>inf - inf\<close> and \<open>inf * 0\<close> are NaN, every comparison with a NaN is
  false). Finite values are idealised as real numbers: rounding, overflow of a
  finite result and the sign of zero are not modelled, so the literals \<^verbatim>\<open>0.05\<close>
  and \<^verbatim>\<open>1e10\<close> stand for the exact numbers.
\<close>

datatype double = Fin real | PInf | NInf | NaN

fun dneg :: "double \<Rightarrow> double" where
  "dneg (Fin a) = Fin (- a)"
| "dneg PInf = NInf"
| "dneg NInf = PInf"
| "dneg NaN = NaN"

fun dadd :: "double \<Rightarrow> double \<Rightarrow> double" where
  "dadd NaN b = NaN"
| "dadd a NaN = NaN"
| "dadd PInf NInf = NaN"
| "dadd NInf PInf = NaN"
| "dadd PInf b = PInf"
| "dadd a PInf = PInf"
| "dadd NInf b = NInf"
| "dadd a NInf = NInf"
| "dadd (Fin a) (Fin b) = Fin (a + b)"

definition dsub :: "double \<Rightarrow> double \<Rightarrow> double" where
  "dsub a b = dadd a (dneg b)"

text \<open>The sign of an infinite product: positive when both factors have the same sign.\<close>

definition inf_of_sign :: "bool \<Rightarrow> double" where
  "inf_of_sign pos = (if pos then PInf else NInf)"

fun dmul :: "double \<Rightarrow> double \<Rightarrow> double" where
  "dmul NaN b = NaN"
| "dmul a NaN = NaN"
| "dmul (Fin a) (Fin b) = Fin (a * b)"
| "dmul (Fin a) PInf = (if a = 0 then NaN else inf_of_sign (0 < a))"
| "dmul (Fin a) NInf = (if a = 0 then NaN else inf_of_sign (a < 0))"
| "dmul PInf (Fin b) = (if b = 0 then NaN else inf_of_sign (0 < b))"
| "dmul NInf (Fin b) = (if b = 0 then NaN else inf_of_sign (b < 0))"
| "dmul PInf PInf = PInf"
| "dmul NInf NInf = PInf"
| "dmul PInf NInf = NInf"
| "dmul NInf PInf = NInf"

text \<open>Division by the constant 2, the only division of the source.\<close>

fun ddiv2 :: "double \<Rightarrow> double" where
  "ddiv2 (Fin a) = Fin (a / 2)"
| "ddiv2 PInf = PInf"
| "ddiv2 NInf = NInf"
| "ddiv2 NaN = NaN"

text \<open>The comparison \<^verbatim>\<open><=\<close>.\<close>

fun dle :: "double \<Rightarrow> double \<Rightarrow> bool" where
  "dle NaN b = False"
| "dle a NaN = False"
| "dle NInf b = True"
| "dle a PInf = True"
| "dle PInf b = False"
| "dle a NInf = False"
| "dle (Fin a) (Fin b) = (a \<le> b)"

definition is_finite :: "double \<Rightarrow> bool" where
  "is_finite d = (case d of Fin _ \<Rightarrow> True | _ \<Rightarrow> False)"

text \<open>
  \<^verbatim>\<open>Coordinate\<close>: the source reads its fields \<^verbatim>\<open>x\<close>, \<^verbatim>\<open>y\<close>, \<^verbatim>\<open>z\<close> and uses its
  operators \<^verbatim>\<open>+\<close>, \<^verbatim>\<open>-\<close> and \<^verbatim>\<open>/\<close>.

  Modelled from the spec: the type and its operators are declared in
  \<^verbatim>\<open>lepp2/legacy/models/ObjectModel.hpp\<close>, which is not among the sources; the spec
  calls the reference point "3 real coordinates" and writes the blend as vector
  arithmetic, so the operators act on each coordinate.
\<close>

datatype Coordinate = Coordinate (coord_x: double) (coord_y: double) (coord_z: double)

definition cadd :: "Coordinate \<Rightarrow> Coordinate \<Rightarrow> Coordinate" where
  "cadd p q = Coordinate (dadd (coord_x p) (coord_x q)) (dadd (coord_y p) (coord_y q))
     (dadd (coord_z p) (coord_z q))"

definition csub :: "Coordinate \<Rightarrow> Coordinate \<Rightarrow> Coordinate" where
  "csub p q = Coordinate (dsub (coord_x p) (coord_x q)) (dsub (coord_y p) (coord_y q))
     (dsub (coord_z p) (coord_z q))"

definition cdiv2 :: "Coordinate \<Rightarrow> Coordinate" where
  "cdiv2 p = Coordinate (ddiv2 (coord_x p)) (ddiv2 (coord_y p)) (ddiv2 (coord_z p))"

definition finite_point :: "Coordinate \<Rightarrow> bool" where
  "finite_point p = (is_finite (coord_x p) \<and> is_finite (coord_y p) \<and> is_finite (coord_z p))"

text \<open>
  The shapes that \<^verbatim>\<open>BlendVisitor\<close> and \<^verbatim>\<open>adaptTracked\<close> name: a sphere with its centre,
  a capsule with its two end points, and a composite with its list of models. The
  children of a composite are held by value.

  Modelled from the spec: the classes are declared in \<^verbatim>\<open>ObjectModel.hpp\<close>, which is
  not among the sources; the spec describes "a closed tagged union" in which "a
  composite variant holds a recursively-typed ordered collection of children".
\<close>

datatype ObjectModel =
    SphereModel Coordinate
  | CapsuleModel Coordinate Coordinate
  | CompositeModel "ObjectModel list"

subsection \<open>BlendVisitor\<close>

definition visitSphere :: "Coordinate \<Rightarrow> Coordinate \<Rightarrow> ObjectModel" where
  "visitSphere translation_vec center = SphereModel (cadd center translation_vec)"

definition visitCapsule :: "Coordinate \<Rightarrow> Coordinate \<Rightarrow> Coordinate \<Rightarrow> ObjectModel" where
  "visitCapsule translation_vec first second =
     CapsuleModel (cadd first translation_vec) (cadd second translation_vec)"

text \<open>
  \<^verbatim>\<open>model->accept(blender)\<close>: the dispatch to the visitor.

  Modelled from the spec: \<^verbatim>\<open>accept\<close> is declared in \<^verbatim>\<open>ObjectModel.hpp\<close>, which is not
  among the sources; by the spec "a primitive translates its own reference geometry;
  a composite recursively translates every child".
\<close>

fun accept :: "Coordinate \<Rightarrow> ObjectModel \<Rightarrow> ObjectModel" where
  "accept v (SphereModel c) = visitSphere v c"
| "accept v (CapsuleModel f s) = visitCapsule v f s"
| "accept v (CompositeModel ms) = CompositeModel (map (accept v) ms)"

section \<open>Objects, pointers and maps\<close>

text \<open>
  An \<^verbatim>\<open>ObjectModelPtr\<close> is a shared pointer; the objects live in a store that maps each
  pointer to the object it refers to, so that two pointers to one object are told
  from two equal objects. An object carries the identity that \<^verbatim>\<open>set_id\<close> writes and
  its shape. Pointers are taken to be non-null: every address holds an object.
\<close>

type_synonym ObjectModelPtr = nat

record object =
  obj_id :: int
  obj_model :: ObjectModel

type_synonym store = "ObjectModelPtr \<Rightarrow> object"

text \<open>
  A \<^verbatim>\<open>std::map\<close> is a list of entries in iteration order, which for a well-formed
  map is the strictly ascending order of the keys.
\<close>

definition std_map :: "(int \<times> 'v) list \<Rightarrow> bool" where
  "std_map m = sorted_wrt (<) (map fst m)"

text \<open>\<^verbatim>\<open>m[k] = v\<close>: the entry of \<open>k\<close> is overwritten, or a new one is put in key order.\<close>

fun map_assign :: "int \<Rightarrow> 'v \<Rightarrow> (int \<times> 'v) list \<Rightarrow> (int \<times> 'v) list" where
  "map_assign k v [] = [(k, v)]"
| "map_assign k v (e # m) =
     (if fst e = k then (k, v) # m
      else if k < fst e then (k, v) # e # m
      else e # map_assign k v m)"

text \<open>\<^verbatim>\<open>m.erase(m.find(k))\<close>, guarded by \<^verbatim>\<open>m.find(k) != m.end()\<close>.\<close>

definition map_erase :: "int \<Rightarrow> (int \<times> 'v) list \<Rightarrow> (int \<times> 'v) list" where
  "map_erase k m = filter (\<lambda>e. fst e \<noteq> k) m"

text \<open>The value that \<^verbatim>\<open>m[k]\<close> reads in a map of counters: a missing entry is created as 0.\<close>

definition map_at :: "(int \<times> int) list \<Rightarrow> int \<Rightarrow> int" where
  "map_at m k = (case map_of m k of None \<Rightarrow> 0 | Some v \<Rightarrow> v)"

section \<open>The aggregator\<close>

text \<open>
  The members of \<^verbatim>\<open>SmoothObstacleAggregator\<close>, named without the trailing underscore of the source. \<^verbatim>\<open>model_id_t\<close> and the counters are C++
  \<^verbatim>\<open>int\<close>; they only ever count up from 0 by one per call or frame, and overflow
  (undefined in C++) is out of reach of the model, so they are unbounded integers.
  A node of the linked list \<^verbatim>\<open>materialized_models\<close> is the pair of its handle and its
  element: an iterator into the list is the handle of the node it points to, and
  \<open>list_nodes\<close> counts the nodes ever allocated, so that a new node has a handle of its
  own. \<open>objects\<close> is the store the shared pointers point into. The attached
  aggregators receive \<open>copyMaterialized\<close> of the state after the frame.
\<close>

record aggregator =
  next_model_id :: int
  tracked_models :: "(int \<times> ObjectModelPtr) list"
  frames_found :: "(int \<times> int) list"
  frames_lost :: "(int \<times> int) list"
  materialized_models :: "(nat \<times> ObjectModelPtr) list"
  model_idx_in_list :: "(int \<times> nat) list"
  frame_cnt :: int
  list_nodes :: nat
  objects :: store

text \<open>The constructor, for a given content of the memory.\<close>

definition SmoothObstacleAggregator :: "store \<Rightarrow> aggregator" where
  "SmoothObstacleAggregator h =
     \<lparr>next_model_id = 0, tracked_models = [], frames_found = [], frames_lost = [],
      materialized_models = [], model_idx_in_list = [], frame_cnt = 0, list_nodes = 0,
      objects = h\<rparr>"

definition nextModelId :: "aggregator \<Rightarrow> int \<times> aggregator" where
  "nextModelId s = (next_model_id s, s\<lparr>next_model_id := next_model_id s + 1\<rparr>)"

subsection \<open>getMatchByDistance\<close>

text \<open>
  \<^verbatim>\<open>center_point()\<close> is a member of the shapes and is declared in \<^verbatim>\<open>ObjectModel.hpp\<close>,
  which is not among the sources: every function that calls it takes it as its first
  argument \<open>cp\<close>.
\<close>

definition sq_dist :: "Coordinate \<Rightarrow> Coordinate \<Rightarrow> double" where
  "sq_dist p query_point =
     dadd (dadd
       (dmul (dsub (coord_x p) (coord_x query_point)) (dsub (coord_x p) (coord_x query_point)))
       (dmul (dsub (coord_y p) (coord_y query_point)) (dsub (coord_y p) (coord_y query_point))))
       (dmul (dsub (coord_z p) (coord_z query_point)) (dsub (coord_z p) (coord_z query_point)))"

text \<open>The body of the loop over \<^verbatim>\<open>tracked_models\<close>, on \<open>(found, min_dist, match)\<close>.\<close>

definition match_step ::
  "(ObjectModel \<Rightarrow> Coordinate) \<Rightarrow> store \<Rightarrow> Coordinate \<Rightarrow> int \<times> ObjectModelPtr \<Rightarrow>
   bool \<times> double \<times> int \<Rightarrow> bool \<times> double \<times> int" where
  "match_step cp h query_point elem acc =
     (case acc of (found, min_dist, match) \<Rightarrow>
       (let dist = sq_dist (cp (obj_model (h (snd elem)))) query_point in
        if dle dist (Fin 0.05) then
          (let min_dist1 = (if \<not> found then dist else min_dist) in
           if dle dist min_dist1 then (True, dist, fst elem) else (True, min_dist1, match))
        else (found, min_dist, match)))"

definition match_loop ::
  "(ObjectModel \<Rightarrow> Coordinate) \<Rightarrow> aggregator \<Rightarrow> ObjectModelPtr \<Rightarrow> bool \<times> double \<times> int" where
  "match_loop cp s model =
     fold (match_step cp (objects s) (cp (obj_model (objects s model))))
       (tracked_models s) (False, Fin 10000000000, 0)"

definition getMatchByDistance ::
  "(ObjectModel \<Rightarrow> Coordinate) \<Rightarrow> aggregator \<Rightarrow> ObjectModelPtr \<Rightarrow> int \<times> aggregator" where
  "getMatchByDistance cp s model =
     (case match_loop cp s model of (found, min_dist, match) \<Rightarrow>
        if found then (match, s) else nextModelId s)"

subsection \<open>matchToPrevious\<close>

text \<open>
  The body of the first loop, for the obstacle at index \<open>i\<close>, on the aggregator (whose
  identity counter \<open>getMatchByDistance\<close> may advance), \<open>correspondence\<close> and
  \<open>new_in_frame\<close>.
\<close>

definition match_obstacle ::
  "(ObjectModel \<Rightarrow> Coordinate) \<Rightarrow> nat \<Rightarrow> ObjectModelPtr \<Rightarrow>
   aggregator \<times> (int \<times> nat) list \<times> (int \<times> nat) list \<Rightarrow>
   aggregator \<times> (int \<times> nat) list \<times> (int \<times> nat) list" where
  "match_obstacle cp i new_obstacle acc =
     (case acc of (s, correspondence, new_in_frame) \<Rightarrow>
       (case getMatchByDistance cp s new_obstacle of (model_id, s1) \<Rightarrow>
         (s1, map_assign model_id i correspondence,
          if map_of (tracked_models s1) model_id = None
          then new_in_frame @ [(model_id, i)] else new_in_frame)))"

fun match_all ::
  "(ObjectModel \<Rightarrow> Coordinate) \<Rightarrow> ObjectModelPtr list \<Rightarrow> nat \<Rightarrow>
   aggregator \<times> (int \<times> nat) list \<times> (int \<times> nat) list \<Rightarrow>
   aggregator \<times> (int \<times> nat) list \<times> (int \<times> nat) list" where
  "match_all cp [] i acc = acc"
| "match_all cp (new_obstacle # rest) i acc =
     match_all cp rest (Suc i) (match_obstacle cp i new_obstacle acc)"

text \<open>
  The body of the second loop. \<open>corresp\<close> is an index that the first loop has put into
  \<open>new_in_frame\<close>, so it is within \<open>new_obstacles\<close>.
\<close>

definition insert_new :: "ObjectModelPtr list \<Rightarrow> int \<times> nat \<Rightarrow> aggregator \<Rightarrow> aggregator" where
  "insert_new new_obstacles elem s =
     (let model_id = fst elem; corresp = snd elem; p = new_obstacles ! corresp in
      s\<lparr>tracked_models := map_assign model_id p (tracked_models s),
        frames_lost := map_assign model_id 0 (frames_lost s),
        frames_found := map_assign model_id 0 (frames_found s),
        objects := (objects s)(p := (objects s p)\<lparr>obj_id := model_id\<rparr>)\<rparr>)"

definition matchToPrevious ::
  "(ObjectModel \<Rightarrow> Coordinate) \<Rightarrow> aggregator \<Rightarrow> ObjectModelPtr list \<Rightarrow>
   aggregator \<times> (int \<times> nat) list" where
  "matchToPrevious cp s new_obstacles =
     (case match_all cp new_obstacles 0 (s, [], []) of
        (s1, correspondence, new_in_frame) \<Rightarrow>
          (fold (insert_new new_obstacles) new_in_frame s1, correspondence))"

subsection \<open>updateLostAndFound\<close>

definition lost_and_found_step ::
  "(int \<times> nat) list \<Rightarrow> int \<times> ObjectModelPtr \<Rightarrow> aggregator \<Rightarrow> aggregator" where
  "lost_and_found_step new_matches elem s =
     (let model_id = fst elem in
      if map_of new_matches model_id \<noteq> None then
        (let s1 = (if map_of (model_idx_in_list s) model_id = None
                   then s\<lparr>frames_found :=
                     map_assign model_id (map_at (frames_found s) model_id + 1) (frames_found s)\<rparr>
                   else s)
         in s1\<lparr>frames_lost := map_assign model_id 0 (frames_lost s1)\<rparr>)
      else
        s\<lparr>frames_lost :=
            map_assign model_id (map_at (frames_lost s) model_id + 1) (frames_lost s),
          frames_found := map_assign model_id 0 (frames_found s)\<rparr>)"

definition updateLostAndFound :: "(int \<times> nat) list \<Rightarrow> aggregator \<Rightarrow> aggregator" where
  "updateLostAndFound new_matches s =
     fold (lost_and_found_step new_matches) (tracked_models s) s"

subsection \<open>adaptTracked\<close>

text \<open>
  A loop whose body can run into undefined behaviour yields \<open>None\<close> there, and the
  loop stops.
\<close>

fun fold_opt :: "('a \<Rightarrow> 's \<Rightarrow> 's option) \<Rightarrow> 'a list \<Rightarrow> 's \<Rightarrow> 's option" where
  "fold_opt f [] s = Some s"
| "fold_opt f (e # es) s = (case f e s of None \<Rightarrow> None | Some s1 \<Rightarrow> fold_opt f es s1)"

text \<open>The blend of lines 290 to 293, on the object \<open>tracked\<close> points to.\<close>

definition blend ::
  "(ObjectModel \<Rightarrow> Coordinate) \<Rightarrow> ObjectModelPtr \<Rightarrow> ObjectModelPtr \<Rightarrow> store \<Rightarrow> store" where
  "blend cp tracked new_obstacle h =
     (let translation_vec =
            cdiv2 (csub (cp (obj_model (h new_obstacle))) (cp (obj_model (h tracked))))
      in h(tracked := (h tracked)\<lparr>obj_model := accept translation_vec (obj_model (h tracked))\<rparr>))"

text \<open>
  The two \<^verbatim>\<open>dynamic_cast\<close>s and \<^verbatim>\<open>tracked->set_models(new_model->models())\<close> of lines 295
  to 299.
\<close>

definition refresh :: "ObjectModelPtr \<Rightarrow> ObjectModelPtr \<Rightarrow> store \<Rightarrow> store" where
  "refresh tracked new_obstacle h =
     (case obj_model (h tracked) of
        CompositeModel old_models \<Rightarrow>
          (case obj_model (h new_obstacle) of
             CompositeModel models \<Rightarrow> h(tracked := (h tracked)\<lparr>obj_model := CompositeModel models\<rparr>)
           | _ \<Rightarrow> h)
      | _ \<Rightarrow> h)"

text \<open>
  The body of the loop over \<open>correspondence\<close>. \<^verbatim>\<open>tracked_models_[model_id]\<close> on an identity
  that is not tracked yields a null pointer, and \<^verbatim>\<open>new_obstacles[i]\<close> beyond the vector
  is out of bounds: both are undefined behaviour.
\<close>

definition adapt_step ::
  "(ObjectModel \<Rightarrow> Coordinate) \<Rightarrow> ObjectModelPtr list \<Rightarrow> int \<times> nat \<Rightarrow> aggregator \<Rightarrow>
   aggregator option" where
  "adapt_step cp new_obstacles elem s =
     (let model_id = fst elem; i = snd elem in
      case map_of (tracked_models s) model_id of
        None \<Rightarrow> None
      | Some tracked \<Rightarrow>
          if length new_obstacles \<le> i then None
          else
            (let h1 = blend cp tracked (new_obstacles ! i) (objects s);
                 h2 = (if frame_cnt s mod 30 = 0
                       then refresh tracked (new_obstacles ! i) h1 else h1)
             in Some (s\<lparr>objects := h2\<rparr>)))"

definition adaptTracked ::
  "(ObjectModel \<Rightarrow> Coordinate) \<Rightarrow> (int \<times> nat) list \<Rightarrow> ObjectModelPtr list \<Rightarrow> aggregator \<Rightarrow>
   aggregator option" where
  "adaptTracked cp correspondence new_obstacles s =
     fold_opt (adapt_step cp new_obstacles) correspondence s"

subsection \<open>dropLostObjects\<close>

text \<open>
  \<^verbatim>\<open>materialized_models_.erase(pos)\<close>: the node is unlinked; an iterator that points to
  no node of the list is undefined behaviour.
\<close>

definition list_erase ::
  "nat \<Rightarrow> (nat \<times> ObjectModelPtr) list \<Rightarrow> (nat \<times> ObjectModelPtr) list option" where
  "list_erase pos l =
     (if pos \<in> set (map fst l) then Some (filter (\<lambda>n. fst n \<noteq> pos) l) else None)"

text \<open>
  The body of the loop for the entry of \<open>k\<close> in \<^verbatim>\<open>frames_lost_\<close>. The loop erases the
  entry it stands on and no other, so it visits the keys that the map has at the
  start, each with the count it has then.
\<close>

definition drop_step :: "int \<Rightarrow> aggregator \<Rightarrow> aggregator option" where
  "drop_step k s =
     (case map_of (frames_lost s) k of
        None \<Rightarrow> Some s
      | Some lost \<Rightarrow>
          if lost \<ge> 10 then
            (let s1 = s\<lparr>tracked_models := map_erase k (tracked_models s)\<rparr>;
                 r = (case map_of (model_idx_in_list s1) k of
                        None \<Rightarrow> Some s1
                      | Some pos \<Rightarrow>
                          (case list_erase pos (materialized_models s1) of
                             None \<Rightarrow> None
                           | Some l \<Rightarrow>
                               Some (s1\<lparr>materialized_models := l,
                                 model_idx_in_list := map_erase k (model_idx_in_list s1)\<rparr>)))
             in case r of
                  None \<Rightarrow> None
                | Some s2 \<Rightarrow>
                    Some (s2\<lparr>frames_found := map_erase k (frames_found s2),
                      frames_lost := map_erase k (frames_lost s2)\<rparr>))
          else Some s)"

definition dropLostObjects :: "aggregator \<Rightarrow> aggregator option" where
  "dropLostObjects s = fold_opt drop_step (map fst (frames_lost s)) s"

subsection \<open>materializeFoundObjects\<close>

text \<open>
  The body of the loop for the entry of \<open>model_id\<close> in \<^verbatim>\<open>frames_found_\<close>.
  \<^verbatim>\<open>tracked_models_.find(model_id)->second\<close> on an identity that is not tracked reads
  through the end iterator: undefined behaviour.
\<close>

definition materialize_step :: "int \<Rightarrow> aggregator \<Rightarrow> aggregator option" where
  "materialize_step model_id s =
     (case map_of (frames_found s) model_id of
        None \<Rightarrow> Some s
      | Some seen_count \<Rightarrow>
          if seen_count \<ge> 5 then
            (case map_of (tracked_models s) model_id of
               None \<Rightarrow> None
             | Some model \<Rightarrow>
                 Some (s\<lparr>materialized_models := materialized_models s @ [(list_nodes s, model)],
                   model_idx_in_list := map_assign model_id (list_nodes s) (model_idx_in_list s),
                   frames_found := map_erase model_id (frames_found s),
                   list_nodes := Suc (list_nodes s)\<rparr>))
          else Some s)"

definition materializeFoundObjects :: "aggregator \<Rightarrow> aggregator option" where
  "materializeFoundObjects s = fold_opt materialize_step (map fst (frames_found s)) s"

subsection \<open>updateObstacles\<close>

definition copyMaterialized :: "aggregator \<Rightarrow> ObjectModelPtr list" where
  "copyMaterialized s = map snd (materialized_models s)"

text \<open>
  One frame. The result is the aggregator after the frame; what
  \<^verbatim>\<open>notifyAggregators\<close> hands to the attached aggregators is \<open>copyMaterialized\<close> of it.
\<close>

definition updateObstacles ::
  "(ObjectModel \<Rightarrow> Coordinate) \<Rightarrow> aggregator \<Rightarrow> ObjectModelPtr list \<Rightarrow> aggregator option" where
  "updateObstacles cp s obstacles =
     (let s0 = s\<lparr>frame_cnt := frame_cnt s + 1\<rparr> in
      case matchToPrevious cp s0 obstacles of
        (s1, correspondence) \<Rightarrow>
          (case adaptTracked cp correspondence obstacles (updateLostAndFound correspondence s1) of
             None \<Rightarrow> None
           | Some s3 \<Rightarrow>
               (case dropLostObjects s3 of
                  None \<Rightarrow> None
                | Some s4 \<Rightarrow> materializeFoundObjects s4)))"

text \<open>The frames of a sequence, one after the other.\<close>

fun run ::
  "(ObjectModel \<Rightarrow> Coordinate) \<Rightarrow> aggregator \<Rightarrow> ObjectModelPtr list list \<Rightarrow> aggregator option" where
  "run cp s [] = Some s"
| "run cp s (obstacles # frames) =
     (case updateObstacles cp s obstacles of None \<Rightarrow> None | Some s1 \<Rightarrow> run cp s1 frames)"

subsection \<open>A reference point for concrete runs\<close>

text \<open>
  The theorems below hold for every \<open>cp\<close>. Where a concrete run needs one, it uses the
  centroid: the centre of a sphere, the middle of a capsule's end points, and the mean
  of the reference points of a composite's children (the origin when it has none).
\<close>

definition origin :: Coordinate where
  "origin = Coordinate (Fin 0) (Fin 0) (Fin 0)"

fun ddiv_nat :: "double \<Rightarrow> nat \<Rightarrow> double" where
  "ddiv_nat (Fin a) n = Fin (a / real n)"
| "ddiv_nat d n = d"

fun centroid :: "ObjectModel \<Rightarrow> Coordinate" where
  "centroid (SphereModel c) = c"
| "centroid (CapsuleModel f s) = cdiv2 (cadd s f)"
| "centroid (CompositeModel ms) =
     (if ms = [] then origin
      else (let c = foldr cadd (map centroid ms) origin in
            Coordinate (ddiv_nat (coord_x c) (length ms)) (ddiv_nat (coord_y c) (length ms))
              (ddiv_nat (coord_z c) (length ms))))"

section \<open>Notions for the statements\<close>

subsection \<open>The matcher\<close>

text \<open>
  The squared distance of a tracked entry from the query point, and the entries that the
  threshold \<^verbatim>\<open>dist <= 0.05\<close> accepts.
\<close>

definition elem_dist ::
  "(ObjectModel \<Rightarrow> Coordinate) \<Rightarrow> store \<Rightarrow> Coordinate \<Rightarrow> int \<times> ObjectModelPtr \<Rightarrow> double" where
  "elem_dist cp h q elem = sq_dist (cp (obj_model (h (snd elem)))) q"

definition candidate ::
  "(ObjectModel \<Rightarrow> Coordinate) \<Rightarrow> store \<Rightarrow> Coordinate \<Rightarrow> int \<times> ObjectModelPtr \<Rightarrow> bool" where
  "candidate cp h q elem = dle (elem_dist cp h q elem) (Fin 0.05)"

text \<open>The entries of \<open>cs\<close> that no entry of \<open>cs\<close> is nearer than, in the order of \<open>cs\<close>.\<close>

definition nearest ::
  "(ObjectModel \<Rightarrow> Coordinate) \<Rightarrow> store \<Rightarrow> Coordinate \<Rightarrow> (int \<times> ObjectModelPtr) list \<Rightarrow>
   (int \<times> ObjectModelPtr) list" where
  "nearest cp h q cs =
     filter (\<lambda>e. \<forall>e' \<in> set cs. dle (elem_dist cp h q e) (elem_dist cp h q e')) cs"

subsection \<open>Concrete scenes\<close>

definition sphere_at :: "real \<Rightarrow> real \<Rightarrow> real \<Rightarrow> object" where
  "sphere_at a b c = \<lparr>obj_id = - 1, obj_model = SphereModel (Coordinate (Fin a) (Fin b) (Fin c))\<rparr>"

text \<open>
  Spheres at \<open>(0.1, 0, 0)\<close> and \<open>(-0.1, 0, 0)\<close> behind the pointers 0 and 1, at
  \<open>(5, 0, 0)\<close>, \<open>(0.11, 0, 0)\<close> and \<open>(0.3, 0, 0)\<close> behind the pointers 3, 4 and 5, and
  at the origin behind all others. \<open>tie_state\<close> is the aggregator after a first frame
  with the obstacles 0 and 1.
\<close>

definition tie_store :: store where
  "tie_store =
     (\<lambda>p. if p = 0 then sphere_at (1/10) 0 0
          else if p = 1 then sphere_at (- (1/10)) 0 0
          else if p = 3 then sphere_at 5 0 0
          else if p = 4 then sphere_at (11/100) 0 0
          else if p = 5 then sphere_at (3/10) 0 0
          else sphere_at 0 0 0)"

definition tie_state :: aggregator where
  "tie_state =
     \<lparr>next_model_id = 2, tracked_models = [(0, 0), (1, 1)],
      frames_found = [(0, 1), (1, 1)], frames_lost = [(0, 0), (1, 0)],
      materialized_models = [], model_idx_in_list = [], frame_cnt = 1, list_nodes = 0,
      objects = tie_store(0 := (tie_store 0)\<lparr>obj_id := 0\<rparr>, 1 := (tie_store 1)\<lparr>obj_id := 1\<rparr>)\<rparr>"

text \<open>
  A sphere whose centre has a NaN coordinate behind every pointer, and the aggregator
  after a first frame with the obstacle 0.
\<close>

definition nan_store :: store where
  "nan_store = (\<lambda>p. \<lparr>obj_id = - 1, obj_model = SphereModel (Coordinate NaN (Fin 0) (Fin 0))\<rparr>)"

definition nan_state :: aggregator where
  "nan_state =
     \<lparr>next_model_id = 1, tracked_models = [(0, 0)],
      frames_found = [(0, 1)], frames_lost = [(0, 0)],
      materialized_models = [], model_idx_in_list = [], frame_cnt = 1, list_nodes = 0,
      objects = nan_store(0 := (nan_store 0)\<lparr>obj_id := 0\<rparr>)\<rparr>"

text \<open>
  A sphere at the origin behind every pointer. \<open>confirmed_state\<close> is the aggregator
  after five frames that each hold one obstacle, behind the pointers 1 to 5 in turn:
  identity 0 has been materialized.
\<close>

definition h0 :: store where
  "h0 = (\<lambda>p. sphere_at 0 0 0)"

definition confirmed_state :: aggregator where
  "confirmed_state =
     \<lparr>next_model_id = 1, tracked_models = [(0, 1)],
      frames_found = [], frames_lost = [(0, 0)],
      materialized_models = [(0, 1)], model_idx_in_list = [(0, 0)], frame_cnt = 5, list_nodes = 1,
      objects = h0(1 := (h0 1)\<lparr>obj_id := 0\<rparr>)\<rparr>"

subsection \<open>The identities of a frame\<close>

text \<open>
  The tracked identity that \<open>getMatchByDistance\<close> finds for an obstacle, if it finds one
  (lemma \<open>getMatchByDistance_match_of\<close>).
\<close>

definition match_of :: "(ObjectModel \<Rightarrow> Coordinate) \<Rightarrow> aggregator \<Rightarrow> ObjectModelPtr \<Rightarrow> int option" where
  "match_of cp s model =
     (let q = cp (obj_model (objects s model));
          cs = filter (candidate cp (objects s) q) (tracked_models s)
      in if cs = [] then None else Some (fst (last (nearest cp (objects s) q cs))))"

text \<open>
  The number of obstacles before index \<open>i\<close> that have no match, and the identity that
  the counter gives to the obstacle at index \<open>i\<close> when it has none either.
\<close>

definition unmatched_before ::
  "(ObjectModel \<Rightarrow> Coordinate) \<Rightarrow> aggregator \<Rightarrow> ObjectModelPtr list \<Rightarrow> nat \<Rightarrow> nat" where
  "unmatched_before cp s obstacles i =
     length (filter (\<lambda>a. match_of cp s a = None) (take i obstacles))"

definition fresh_id ::
  "(ObjectModel \<Rightarrow> Coordinate) \<Rightarrow> aggregator \<Rightarrow> ObjectModelPtr list \<Rightarrow> nat \<Rightarrow> int" where
  "fresh_id cp s obstacles i = next_model_id s + int (unmatched_before cp s obstacles i)"

text \<open>Every tracked identity has been given out by the counter.\<close>

definition ids_below_counter :: "aggregator \<Rightarrow> bool" where
  "ids_below_counter s = (\<forall>e \<in> set (tracked_models s). fst e < next_model_id s)"

text \<open>
  The pairs of identity and index that the first loop of \<open>matchToPrevious\<close> goes through,
  from counter value \<open>n\<close> and index \<open>i\<close> on.
\<close>

fun assigned ::
  "(ObjectModel \<Rightarrow> Coordinate) \<Rightarrow> aggregator \<Rightarrow> int \<Rightarrow> nat \<Rightarrow> ObjectModelPtr list \<Rightarrow> (int \<times> nat) list" where
  "assigned cp s n i [] = []"
| "assigned cp s n i (a # rest) =
     (case match_of cp s a of
        Some k \<Rightarrow> (k, i) # assigned cp s n (Suc i) rest
      | None \<Rightarrow> (n, i) # assigned cp s (n + 1) (Suc i) rest)"

subsection \<open>The track updater\<close>

text \<open>
  The points that make up a shape, in the order of its structure, and the structure
  with every point put at the origin: a rigid translation by \<open>v\<close> adds \<open>v\<close> to each of
  the points and keeps the structure.
\<close>

fun points :: "ObjectModel \<Rightarrow> Coordinate list" where
  "points (SphereModel c) = [c]"
| "points (CapsuleModel f s) = [f, s]"
| "points (CompositeModel ms) = concat (map points ms)"

fun skeleton :: "ObjectModel \<Rightarrow> ObjectModel" where
  "skeleton (SphereModel c) = SphereModel origin"
| "skeleton (CapsuleModel f s) = CapsuleModel origin origin"
| "skeleton (CompositeModel ms) = CompositeModel (map skeleton ms)"

text \<open>The point halfway between two points.\<close>

definition midpoint :: "Coordinate \<Rightarrow> Coordinate \<Rightarrow> Coordinate" where
  "midpoint p q = cdiv2 (cadd p q)"

definition is_composite :: "ObjectModel \<Rightarrow> bool" where
  "is_composite m = (case m of CompositeModel _ \<Rightarrow> True | _ \<Rightarrow> False)"

text \<open>
  What the body of the loop of \<open>adaptTracked\<close> does to the store, for the tracked
  pointer \<open>a\<close>, the obstacle pointer \<open>b\<close> and the frame count \<open>cnt\<close>
  (lemma \<open>adapt_step_eq\<close>).
\<close>

definition adapt_store ::
  "(ObjectModel \<Rightarrow> Coordinate) \<Rightarrow> int \<Rightarrow> ObjectModelPtr \<Rightarrow> ObjectModelPtr \<Rightarrow> store \<Rightarrow> store" where
  "adapt_store cp cnt a b h =
     (if cnt mod 30 = 0 then refresh a b (blend cp a b h) else blend cp a b h)"

text \<open>
  Every entry of the correspondence names a tracked identity and an index within the
  frame, and the objects tracked under the identities other than \<open>k\<close> are neither the
  object \<open>a\<close> nor the object \<open>b\<close>.
\<close>

definition other_entries_apart ::
  "aggregator \<Rightarrow> (int \<times> nat) list \<Rightarrow> ObjectModelPtr list \<Rightarrow> int \<Rightarrow> ObjectModelPtr \<Rightarrow> ObjectModelPtr \<Rightarrow> bool" where
  "other_entries_apart s correspondence obs k a b =
     (\<forall>e \<in> set correspondence. snd e < length obs \<and>
        (case map_of (tracked_models s) (fst e) of
           None \<Rightarrow> False
         | Some a' \<Rightarrow> fst e = k \<or> (a' \<noteq> a \<and> a' \<noteq> b)))"

text \<open>
  A composite of one sphere at the origin behind pointer 0, a composite of two spheres
  at \<open>(0.1, 0, 0)\<close> and \<open>(0.3, 0, 0)\<close> behind pointer 1, and spheres at \<open>(0.2, 0, 0)\<close>
  behind all others. \<open>refresh_state\<close> is the aggregator after 29 frames that each hold
  the obstacle 0.
\<close>

definition composite_of :: "int \<Rightarrow> (real \<times> real \<times> real) list \<Rightarrow> object" where
  "composite_of n cs =
     \<lparr>obj_id = n,
      obj_model = CompositeModel (map (\<lambda>(a, b, c). SphereModel (Coordinate (Fin a) (Fin b) (Fin c))) cs)\<rparr>"

definition refresh_store :: store where
  "refresh_store =
     (\<lambda>p. if p = 0 then composite_of 0 [(0, 0, 0)]
          else if p = 1 then composite_of (- 1) [(1/10, 0, 0), (3/10, 0, 0)]
          else sphere_at (2/10) 0 0)"

definition refresh_state :: aggregator where
  "refresh_state =
     \<lparr>next_model_id = 1, tracked_models = [(0, 0)],
      frames_found = [], frames_lost = [(0, 0)],
      materialized_models = [(0, 0)], model_idx_in_list = [(0, 0)], frame_cnt = 29,
      list_nodes = 1, objects = refresh_store\<rparr>"

subsection \<open>The lifecycle\<close>

text \<open>
  What holds of the aggregator between two frames: the tracked table is a well-formed
  map whose identities have all been given out by the counter, every found-streak
  belongs to a tracked identity, every recorded position in the list is the handle of a
  node of the list and of one identity only, the handles of the nodes are below the
  count of nodes, and a materialized identity has no found-streak but 0.
\<close>

definition well_formed :: "aggregator \<Rightarrow> bool" where
  "well_formed s =
     (std_map (tracked_models s) \<and> ids_below_counter s
      \<and> set (map fst (frames_found s)) \<subseteq> set (map fst (tracked_models s))
      \<and> set (map snd (model_idx_in_list s)) \<subseteq> set (map fst (materialized_models s))
      \<and> distinct (map snd (model_idx_in_list s))
      \<and> (\<forall>n \<in> set (materialized_models s). fst n < list_nodes s)
      \<and> (\<forall>e \<in> set (model_idx_in_list s). map_at (frames_found s) (fst e) = 0))"

text \<open>The nodes of the list of materialized objects that the recorded position of \<open>k\<close> points to.\<close>

definition nodes_of :: "aggregator \<Rightarrow> int \<Rightarrow> (nat \<times> ObjectModelPtr) list" where
  "nodes_of s k =
     (case map_of (model_idx_in_list s) k of
        None \<Rightarrow> []
      | Some pos \<Rightarrow> filter (\<lambda>n. fst n = pos) (materialized_models s))"

text \<open>Identity \<open>k\<close> has no entry in the tracked table, the two counters and the positions.\<close>

definition purged :: "aggregator \<Rightarrow> int \<Rightarrow> bool" where
  "purged s k =
     (map_of (tracked_models s) k = None \<and> map_of (frames_found s) k = None
      \<and> map_of (frames_lost s) k = None \<and> map_of (model_idx_in_list s) k = None)"

text \<open>Identity \<open>k\<close> has the same entries and the same nodes in \<open>s'\<close> as in \<open>s\<close>.\<close>

definition same_entries :: "aggregator \<Rightarrow> aggregator \<Rightarrow> int \<Rightarrow> bool" where
  "same_entries s' s k =
     (map_of (tracked_models s') k = map_of (tracked_models s) k
      \<and> map_of (frames_found s') k = map_of (frames_found s) k
      \<and> map_of (frames_lost s') k = map_of (frames_lost s) k
      \<and> map_of (model_idx_in_list s') k = map_of (model_idx_in_list s) k
      \<and> nodes_of s' k = nodes_of s k)"

text \<open>
  Between \<open>s\<close> and \<open>s'\<close> identity \<open>k\<close> has been materialized: a node with a handle that
  no node of \<open>s\<close> has holds its tracked object, its position is recorded, and its
  found-streak has been erased.
\<close>

definition promoted :: "aggregator \<Rightarrow> aggregator \<Rightarrow> int \<Rightarrow> bool" where
  "promoted s s' k =
     (\<exists>pos p. map_of (tracked_models s) k = Some p \<and> map_of (tracked_models s') k = Some p
        \<and> map_of (model_idx_in_list s') k = Some pos \<and> nodes_of s' k = [(pos, p)]
        \<and> pos \<notin> fst ` set (materialized_models s)
        \<and> map_of (frames_found s') k = None
        \<and> map_of (frames_lost s') k = map_of (frames_lost s) k)"

text \<open>
  The other direction between the list and the positions: the positions are a
  well-formed map, no two nodes of the list have the same handle, and the handle of
  every node is the recorded position of some identity.
\<close>

definition nodes_recorded :: "aggregator \<Rightarrow> bool" where
  "nodes_recorded s =
     (std_map (model_idx_in_list s) \<and> distinct (map fst (materialized_models s))
      \<and> fst ` set (materialized_models s) \<subseteq> snd ` set (model_idx_in_list s))"

text \<open>
  Every identity with a recorded position is tracked, and the node at that position
  holds the object tracked under it.
\<close>

definition nodes_tracked :: "aggregator \<Rightarrow> bool" where
  "nodes_tracked s =
     (\<forall>e \<in> set (model_idx_in_list s).
        \<exists>p. map_of (tracked_models s) (fst e) = Some p \<and> (snd e, p) \<in> set (materialized_models s))"

text \<open>Some obstacle of the frame has \<open>k\<close> as its match.\<close>

definition matched_in ::
  "(ObjectModel \<Rightarrow> Coordinate) \<Rightarrow> aggregator \<Rightarrow> ObjectModelPtr list \<Rightarrow> int \<Rightarrow> bool" where
  "matched_in cp s obstacles k = (\<exists>a \<in> set obstacles. match_of cp s a = Some k)"

text \<open>
  With a sphere at the origin behind every pointer: the aggregator after four frames
  that each hold one obstacle (\<open>fourth_state\<close>), after the frame without obstacles that
  follows the five frames of \<open>confirmed_state\<close> (\<open>missed_state\<close>), after nine such
  frames (\<open>lost_state\<close>) and after the tenth (\<open>evicted_state\<close>).
\<close>

definition fourth_state :: aggregator where
  "fourth_state =
     \<lparr>next_model_id = 1, tracked_models = [(0, 1)],
      frames_found = [(0, 4)], frames_lost = [(0, 0)],
      materialized_models = [], model_idx_in_list = [], frame_cnt = 4, list_nodes = 0,
      objects = h0(1 := (h0 1)\<lparr>obj_id := 0\<rparr>)\<rparr>"

definition missed_state :: aggregator where
  "missed_state =
     \<lparr>next_model_id = 1, tracked_models = [(0, 1)],
      frames_found = [(0, 0)], frames_lost = [(0, 1)],
      materialized_models = [(0, 1)], model_idx_in_list = [(0, 0)], frame_cnt = 6, list_nodes = 1,
      objects = h0(1 := (h0 1)\<lparr>obj_id := 0\<rparr>)\<rparr>"

definition lost_state :: aggregator where
  "lost_state =
     \<lparr>next_model_id = 1, tracked_models = [(0, 1)],
      frames_found = [(0, 0)], frames_lost = [(0, 9)],
      materialized_models = [(0, 1)], model_idx_in_list = [(0, 0)], frame_cnt = 14, list_nodes = 1,
      objects = h0(1 := (h0 1)\<lparr>obj_id := 0\<rparr>)\<rparr>"

definition evicted_state :: aggregator where
  "evicted_state =
     \<lparr>next_model_id = 1, tracked_models = [],
      frames_found = [], frames_lost = [],
      materialized_models = [], model_idx_in_list = [], frame_cnt = 15, list_nodes = 1,
      objects = h0(1 := (h0 1)\<lparr>obj_id := 0\<rparr>)\<rparr>"

section \<open>Properties\<close>

lemmas run_defs = SmoothObstacleAggregator_def updateObstacles_def matchToPrevious_def
  match_obstacle_def getMatchByDistance_def match_loop_def match_step_def nextModelId_def
  insert_new_def updateLostAndFound_def lost_and_found_step_def adaptTracked_def adapt_step_def
  blend_def refresh_def dropLostObjects_def drop_step_def list_erase_def
  materializeFoundObjects_def materialize_step_def map_at_def map_erase_def copyMaterialized_def
  sq_dist_def csub_def cdiv2_def cadd_def dsub_def visitSphere_def visitCapsule_def origin_def
  inf_of_sign_def Let_def

subsection \<open>The comparison of doubles\<close>

lemma dle_trans: "dle a b \<Longrightarrow> dle b c \<Longrightarrow> dle a c"
  by (cases a; cases b; cases c) auto

lemma dle_refl_if: "dle a t \<Longrightarrow> dle a a"
  by (cases a; cases t) auto

lemma dle_total_if: "dle a t \<Longrightarrow> dle b u \<Longrightarrow> \<not> dle a b \<Longrightarrow> dle b a"
  by (cases a; cases b; cases t; cases u) auto

subsection \<open>getMatchByDistance\<close>

lemma match_step_eq:
  "match_step cp h q e (found, md, m) =
     (if candidate cp h q e then
        (if \<not> found \<or> dle (elem_dist cp h q e) md then (True, elem_dist cp h q e, fst e)
         else (True, md, m))
      else (found, md, m))"
  by (auto simp: match_step_def candidate_def elem_dist_def Let_def dle_refl_if)

lemma match_fold_inv:
  "(filter (candidate cp h q) l = [] \<longrightarrow> fold (match_step cp h q) l (False, md0, m0) = (False, md0, m0)) \<and>
     (filter (candidate cp h q) l \<noteq> [] \<longrightarrow>
        (\<exists>b. b \<in> set (filter (candidate cp h q) l) \<and> (\<forall>e \<in> set (filter (candidate cp h q) l). dle (elem_dist cp h q b) (elem_dist cp h q e)) \<and>
           fold (match_step cp h q) l (False, md0, m0) = (True, elem_dist cp h q b, fst b) \<and>
           last (nearest cp h q (filter (candidate cp h q) l)) = b))"
proof (induction l rule: rev_induct)
  case Nil
  show ?case by simp
next
  case (snoc e l)
  let ?d = "elem_dist cp h q"
  let ?Q = "\<lambda>l b. b \<in> set (filter (candidate cp h q) l) \<and>
     (\<forall>e \<in> set (filter (candidate cp h q) l). dle (elem_dist cp h q b) (elem_dist cp h q e)) \<and>
     fold (match_step cp h q) l (False, md0, m0) = (True, elem_dist cp h q b, fst b) \<and>
     last (nearest cp h q (filter (candidate cp h q) l)) = b"
  show ?case
  proof (cases "candidate cp h q e")
    case False
    have c: "filter (candidate cp h q) (l @ [e]) = filter (candidate cp h q) l"
      using False by simp
    have f: "fold (match_step cp h q) (l @ [e]) (False, md0, m0) =
        fold (match_step cp h q) l (False, md0, m0)"
      using False by (cases "fold (match_step cp h q) l (False, md0, m0)") (simp add: match_step_eq)
    show ?thesis unfolding c f by (rule snoc.IH)
  next
    case cand: True
    then have cs_snoc: "filter (candidate cp h q) (l @ [e]) = filter (candidate cp h q) l @ [e]" by simp
    have refl_e: "dle (?d e) (?d e)"
      using cand by (auto simp: candidate_def intro: dle_refl_if)
    show ?thesis
    proof (cases "filter (candidate cp h q) l = []")
      case True
      then have "fold (match_step cp h q) (l @ [e]) (False, md0, m0) = (True, ?d e, fst e)"
        using snoc.IH cand by (simp add: match_step_eq)
      moreover have "last (nearest cp h q (filter (candidate cp h q) (l @ [e]))) = e"
        using True cand refl_e by (simp add: nearest_def)
      ultimately have "\<exists>b. ?Q (l @ [e]) b"
        using True cand refl_e by (intro exI[of _ e]) simp
      then show ?thesis using cand by simp
    next
      case False
      then obtain b where b: "b \<in> set (filter (candidate cp h q) l)"
        and bmin: "\<forall>e' \<in> set (filter (candidate cp h q) l). dle (?d b) (?d e')"
        and bfold: "fold (match_step cp h q) l (False, md0, m0) = (True, ?d b, fst b)"
        and blast: "last (nearest cp h q (filter (candidate cp h q) l)) = b"
        using snoc.IH by blast
      have bcand: "candidate cp h q b" using b by simp
      show ?thesis
      proof (cases "dle (?d e) (?d b)")
        case True
        have emin: "\<forall>e' \<in> set (filter (candidate cp h q) l @ [e]). dle (?d e) (?d e')"
          using True bmin refl_e by (auto intro: dle_trans)
        have "fold (match_step cp h q) (l @ [e]) (False, md0, m0) = (True, ?d e, fst e)"
          using bfold cand True by (simp add: match_step_eq)
        moreover have "last (nearest cp h q (filter (candidate cp h q) l @ [e])) = e"
          using emin by (simp add: nearest_def)
        ultimately have "\<exists>b. ?Q (l @ [e]) b"
          using emin cand unfolding cs_snoc by (intro exI[of _ e]) simp
        then show ?thesis using cand by simp
      next
        case False
        have be: "dle (?d b) (?d e)"
          using False cand bcand by (auto simp: candidate_def intro: dle_total_if)
        have "fold (match_step cp h q) (l @ [e]) (False, md0, m0) = (True, ?d b, fst b)"
          using bfold cand False by (simp add: match_step_eq)
        moreover have "nearest cp h q (filter (candidate cp h q) l @ [e]) = nearest cp h q (filter (candidate cp h q) l)"
        proof -
          have "\<not> (\<forall>e' \<in> set (filter (candidate cp h q) l @ [e]). dle (?d e) (?d e'))"
            using b False by (metis Un_iff set_append)
          moreover have "filter (\<lambda>x. \<forall>e' \<in> set (filter (candidate cp h q) l @ [e]). dle (?d x) (?d e')) (filter (candidate cp h q) l) =
              filter (\<lambda>x. \<forall>e' \<in> set (filter (candidate cp h q) l). dle (?d x) (?d e')) (filter (candidate cp h q) l)"
          proof (rule filter_cong[OF refl])
            fix x assume "x \<in> set (filter (candidate cp h q) l)"
            show "(\<forall>e' \<in> set (filter (candidate cp h q) l @ [e]). dle (?d x) (?d e')) =
                (\<forall>e' \<in> set (filter (candidate cp h q) l). dle (?d x) (?d e'))"
            proof
              assume "\<forall>e' \<in> set (filter (candidate cp h q) l @ [e]). dle (?d x) (?d e')"
              then show "\<forall>e' \<in> set (filter (candidate cp h q) l). dle (?d x) (?d e')" by simp
            next
              assume a: "\<forall>e' \<in> set (filter (candidate cp h q) l). dle (?d x) (?d e')"
              then have "dle (?d x) (?d b)" using b by blast
              then have "dle (?d x) (?d e)" using be by (rule dle_trans)
              with a show "\<forall>e' \<in> set (filter (candidate cp h q) l @ [e]). dle (?d x) (?d e')"
                by simp
            qed
          qed
          ultimately show ?thesis by (simp add: nearest_def)
        qed
        ultimately have "\<exists>b. ?Q (l @ [e]) b"
          using b bmin be blast unfolding cs_snoc by (intro exI[of _ b]) simp
        then show ?thesis using cand by simp
      qed
    qed
  qed
qed

lemma getMatchByDistance_eq:
  "getMatchByDistance cp s model =
     (let q = cp (obj_model (objects s model));
          cs = filter (candidate cp (objects s) q) (tracked_models s)
      in if cs = [] then (next_model_id s, s\<lparr>next_model_id := next_model_id s + 1\<rparr>)
         else (fst (last (nearest cp (objects s) q cs)), s))"
  using match_fold_inv[of cp "objects s" "cp (obj_model (objects s model))" "tracked_models s"
      "Fin 10000000000" 0]
  by (auto simp: getMatchByDistance_def match_loop_def nextModelId_def Let_def)

lemma tie_state_reached:
  "run centroid (SmoothObstacleAggregator tie_store) [[0, 1]] = Some tie_state"
  by (simp add: run_defs tie_state_def tie_store_def sphere_at_def fun_eq_iff)

text \<open>
  Claim C3, as the code has it. A tracked object is a candidate exactly when its squared
  distance from the observation's reference point satisfies \<^verbatim>\<open>dist <= 0.05\<close>. When
  there is no candidate, \<open>getMatchByDistance\<close> returns the value of the identity counter
  and advances the counter by one. Otherwise it returns, among the candidates of least
  squared distance, the one that comes last in the iteration over \<^verbatim>\<open>tracked_models_\<close>,
  and leaves the aggregator as it is: on an exact tie the candidate seen last wins.
\<close>

theorem getMatchByDistance_nearest_last:
  "getMatchByDistance cp s model =
     (let q = cp (obj_model (objects s model));
          cs = filter (candidate cp (objects s) q) (tracked_models s)
      in if cs = [] then (next_model_id s, s\<lparr>next_model_id := next_model_id s + 1\<rparr>)
         else (fst (last (nearest cp (objects s) q cs)), s))"
  by (rule getMatchByDistance_eq)

theorem getMatchByDistance_nearest_last_witness:
  "getMatchByDistance centroid tie_state 2 = (1, tie_state)"
  using getMatchByDistance_nearest_last[of centroid tie_state 2]
  by (simp add: tie_state_def tie_store_def sphere_at_def candidate_def elem_dist_def
      nearest_def sq_dist_def dsub_def Let_def)

text \<open>
  Claim C3 as stated fails: the tracked objects 0 and 1 are both candidates for the
  obstacle behind pointer 2, at the same squared distance 0.01; identity 0 is seen
  first, and \<open>getMatchByDistance\<close> returns identity 1.
\<close>

theorem getMatchByDistance_first_seen_counterexample:
  "tracked_models tie_state = [(0, 0), (1, 1)]
   \<and> elem_dist centroid (objects tie_state) (centroid (obj_model (objects tie_state 2))) (0, 0)
       = Fin (1/100)
   \<and> elem_dist centroid (objects tie_state) (centroid (obj_model (objects tie_state 2))) (1, 1)
       = Fin (1/100)
   \<and> fst (getMatchByDistance centroid tie_state 2) = 1
   \<and> fst (getMatchByDistance centroid tie_state 2) \<noteq> 0"
  by (simp add: run_defs tie_state_def tie_store_def sphere_at_def elem_dist_def)

subsection \<open>Non-finite reference points\<close>

lemma dmul_self_not_NInf: "dmul a a \<noteq> NInf"
  by (cases a) (auto simp: inf_of_sign_def)

lemma dmul_self_nonfinite:
  "\<not> is_finite a \<Longrightarrow> dmul a a = PInf \<or> dmul a a = NaN"
  by (cases a) (auto simp: is_finite_def)

lemma dsub_nonfinite: "\<not> is_finite b \<Longrightarrow> \<not> is_finite (dsub a b)"
  by (cases a; cases b) (auto simp: is_finite_def dsub_def)

lemma dadd_nonfinite_left:
  "a = PInf \<or> a = NaN \<Longrightarrow> b \<noteq> NInf \<Longrightarrow> dadd a b = PInf \<or> dadd a b = NaN"
  by (cases a; cases b) auto

lemma dadd_nonfinite_right:
  "b = PInf \<or> b = NaN \<Longrightarrow> a \<noteq> NInf \<Longrightarrow> dadd a b = PInf \<or> dadd a b = NaN"
  by (cases a; cases b) auto

lemma dadd_not_NInf: "a \<noteq> NInf \<Longrightarrow> b \<noteq> NInf \<Longrightarrow> dadd a b \<noteq> NInf"
  by (cases a; cases b) auto

lemma sq_dist_nonfinite:
  assumes "\<not> finite_point q"
  shows "sq_dist p q = PInf \<or> sq_dist p q = NaN"
proof -
  let ?dx = "dsub (coord_x p) (coord_x q)"
  let ?dy = "dsub (coord_y p) (coord_y q)"
  let ?dz = "dsub (coord_z p) (coord_z q)"
  consider "\<not> is_finite (coord_x q)" | "\<not> is_finite (coord_y q)" | "\<not> is_finite (coord_z q)"
    using assms by (auto simp: finite_point_def)
  then show ?thesis
  proof cases
    case 1
    then have "dmul ?dx ?dx = PInf \<or> dmul ?dx ?dx = NaN"
      by (intro dmul_self_nonfinite dsub_nonfinite)
    then have "dadd (dmul ?dx ?dx) (dmul ?dy ?dy) = PInf \<or> dadd (dmul ?dx ?dx) (dmul ?dy ?dy) = NaN"
      by (rule dadd_nonfinite_left) (rule dmul_self_not_NInf)
    then show ?thesis unfolding sq_dist_def
      by (rule dadd_nonfinite_left) (rule dmul_self_not_NInf)
  next
    case 2
    then have "dmul ?dy ?dy = PInf \<or> dmul ?dy ?dy = NaN"
      by (intro dmul_self_nonfinite dsub_nonfinite)
    then have "dadd (dmul ?dx ?dx) (dmul ?dy ?dy) = PInf \<or> dadd (dmul ?dx ?dx) (dmul ?dy ?dy) = NaN"
      by (rule dadd_nonfinite_right) (rule dmul_self_not_NInf)
    then show ?thesis unfolding sq_dist_def
      by (rule dadd_nonfinite_left) (rule dmul_self_not_NInf)
  next
    case 3
    then have "dmul ?dz ?dz = PInf \<or> dmul ?dz ?dz = NaN"
      by (intro dmul_self_nonfinite dsub_nonfinite)
    then show ?thesis unfolding sq_dist_def
      by (rule dadd_nonfinite_right) (intro dadd_not_NInf dmul_self_not_NInf)
  qed
qed

lemma nonfinite_no_candidate:
  "\<not> finite_point q \<Longrightarrow> \<not> candidate cp h q e"
  using sq_dist_nonfinite[of q "cp (obj_model (h (snd e)))"]
  by (auto simp: candidate_def elem_dist_def)

subsection \<open>Maps\<close>

lemma map_of_map_assign: "map_of (map_assign k v m) = (map_of m)(k \<mapsto> v)"
  by (induction m) (auto simp: fun_eq_iff)

text \<open>
  Claim C6, as the code has it. There is no check at ingestion and no
  \<open>InvalidObservation\<close> condition. An observation whose reference point has a
  non-finite coordinate goes through the distance comparison like any other; its squared
  distance from every tracked object is \<open>+inf\<close> or NaN, which fails
  \<^verbatim>\<open>dist <= 0.05\<close>, so it matches no tracked object and \<open>getMatchByDistance\<close> gives it
  the next fresh identity. Alone in its frame it is then entered into the tracked table
  under that identity, with its shape, and so its non-finite reference point, as it came.
\<close>

theorem nonfinite_observation_tracked:
  assumes "\<not> finite_point (cp (obj_model (objects s model)))"
  shows "getMatchByDistance cp s model =
           (next_model_id s, s\<lparr>next_model_id := next_model_id s + 1\<rparr>)
    \<and> (map_of (tracked_models s) (next_model_id s) = None \<longrightarrow>
         snd (matchToPrevious cp s [model]) = [(next_model_id s, 0)]
       \<and> map_of (tracked_models (fst (matchToPrevious cp s [model]))) (next_model_id s) = Some model
       \<and> obj_model (objects (fst (matchToPrevious cp s [model])) model) = obj_model (objects s model))"
proof -
  have none: "filter (candidate cp (objects s) (cp (obj_model (objects s model)))) (tracked_models s) = []"
    using assms by (simp add: nonfinite_no_candidate)
  have g: "getMatchByDistance cp s model =
           (next_model_id s, s\<lparr>next_model_id := next_model_id s + 1\<rparr>)"
    using getMatchByDistance_eq[of cp s model] none by (simp add: Let_def)
  show ?thesis
    by (simp add: g matchToPrevious_def match_obstacle_def insert_new_def map_of_map_assign Let_def)
qed

theorem nonfinite_observation_tracked_witness:
  "\<not> finite_point (centroid (obj_model (objects (SmoothObstacleAggregator nan_store) 0)))
   \<and> getMatchByDistance centroid (SmoothObstacleAggregator nan_store) 0 =
       (0, (SmoothObstacleAggregator nan_store)\<lparr>next_model_id := 1\<rparr>)
   \<and> snd (matchToPrevious centroid (SmoothObstacleAggregator nan_store) [0]) = [(0, 0)]
   \<and> map_of (tracked_models (fst (matchToPrevious centroid (SmoothObstacleAggregator nan_store) [0]))) 0
       = Some 0"
  using nonfinite_observation_tracked[of centroid "SmoothObstacleAggregator nan_store" 0]
  by (simp add: SmoothObstacleAggregator_def nan_store_def finite_point_def is_finite_def)

text \<open>
  Claim C6 as stated fails: the first frame of a new aggregator holds one sphere whose
  centre has a NaN coordinate; \<open>updateObstacles\<close> returns normally, and the sphere is
  tracked under identity 0 with the NaN in its reference point.
\<close>

theorem nonfinite_observation_counterexample:
  "updateObstacles centroid (SmoothObstacleAggregator nan_store) [0] = Some nan_state
   \<and> tracked_models nan_state = [(0, 0)]
   \<and> coord_x (centroid (obj_model (objects nan_state 0))) = NaN
   \<and> \<not> finite_point (centroid (obj_model (objects (SmoothObstacleAggregator nan_store) 0)))"
  by (simp add: run_defs nan_state_def nan_store_def finite_point_def is_finite_def fun_eq_iff)

lemma std_map_distinct: "std_map m \<Longrightarrow> distinct (map fst m)"
  by (induction m) (auto simp: std_map_def)

lemma confirmed_state_reached:
  "run centroid (SmoothObstacleAggregator h0) [[1], [2], [3], [4], [5]] = Some confirmed_state"
  by (simp add: run_defs confirmed_state_def h0_def sphere_at_def fun_eq_iff)

subsection \<open>updateLostAndFound\<close>

lemma lost_and_found_step_frame:
  "tracked_models (lost_and_found_step m e s) = tracked_models s"
  "model_idx_in_list (lost_and_found_step m e s) = model_idx_in_list s"
  "materialized_models (lost_and_found_step m e s) = materialized_models s"
  "next_model_id (lost_and_found_step m e s) = next_model_id s"
  "list_nodes (lost_and_found_step m e s) = list_nodes s"
  "frame_cnt (lost_and_found_step m e s) = frame_cnt s"
  "objects (lost_and_found_step m e s) = objects s"
  by (simp_all add: lost_and_found_step_def Let_def)

lemma lost_and_found_step_other:
  "fst e \<noteq> k \<Longrightarrow> map_of (frames_found (lost_and_found_step m e s)) k = map_of (frames_found s) k"
  "fst e \<noteq> k \<Longrightarrow> map_of (frames_lost (lost_and_found_step m e s)) k = map_of (frames_lost s) k"
  by (simp_all add: lost_and_found_step_def Let_def map_of_map_assign)

lemma lost_and_found_step_self:
  "map_of (frames_found (lost_and_found_step m e s)) (fst e) =
     (if map_of m (fst e) \<noteq> None
      then (if map_of (model_idx_in_list s) (fst e) = None
            then Some (map_at (frames_found s) (fst e) + 1) else map_of (frames_found s) (fst e))
      else Some 0)"
  "map_of (frames_lost (lost_and_found_step m e s)) (fst e) =
     (if map_of m (fst e) \<noteq> None then Some 0 else Some (map_at (frames_lost s) (fst e) + 1))"
  by (simp_all add: lost_and_found_step_def Let_def map_of_map_assign)

lemma fold_lost_and_found_frame:
  "tracked_models (fold (lost_and_found_step m) l s) = tracked_models s"
  "model_idx_in_list (fold (lost_and_found_step m) l s) = model_idx_in_list s"
  "materialized_models (fold (lost_and_found_step m) l s) = materialized_models s"
  "next_model_id (fold (lost_and_found_step m) l s) = next_model_id s"
  "list_nodes (fold (lost_and_found_step m) l s) = list_nodes s"
  "frame_cnt (fold (lost_and_found_step m) l s) = frame_cnt s"
  "objects (fold (lost_and_found_step m) l s) = objects s"
  by (induction l arbitrary: s; simp add: lost_and_found_step_frame)+

lemma fold_lost_and_found_other:
  "k \<notin> fst ` set l \<Longrightarrow>
     map_of (frames_found (fold (lost_and_found_step m) l s)) k = map_of (frames_found s) k \<and>
     map_of (frames_lost (fold (lost_and_found_step m) l s)) k = map_of (frames_lost s) k"
  by (induction l arbitrary: s) (auto simp: lost_and_found_step_other)

lemma fold_lost_and_found_self:
  "distinct (map fst l) \<Longrightarrow> e \<in> set l \<Longrightarrow>
     map_of (frames_found (fold (lost_and_found_step m) l s)) (fst e) =
       map_of (frames_found (lost_and_found_step m e s)) (fst e) \<and>
     map_of (frames_lost (fold (lost_and_found_step m) l s)) (fst e) =
       map_of (frames_lost (lost_and_found_step m e s)) (fst e)"
proof (induction l arbitrary: s)
  case Nil
  then show ?case by simp
next
  case (Cons x l)
  show ?case
  proof (cases "x = e")
    case True
    then have "fst e \<notin> fst ` set l" using Cons.prems by auto
    then show ?thesis using True by (simp add: fold_lost_and_found_other)
  next
    case False
    then have e: "e \<in> set l" and d: "distinct (map fst l)" and ne: "fst x \<noteq> fst e"
      using Cons.prems by (auto simp: image_iff)
    have "map_at (frames_found (lost_and_found_step m x s)) (fst e) = map_at (frames_found s) (fst e)"
      "map_at (frames_lost (lost_and_found_step m x s)) (fst e) = map_at (frames_lost s) (fst e)"
      using ne by (simp_all add: map_at_def lost_and_found_step_other)
    then show ?thesis
      using Cons.IH[OF d e, of "lost_and_found_step m x s"] ne
      by (simp add: lost_and_found_step_self lost_and_found_step_other lost_and_found_step_frame)
  qed
qed

lemma updateLostAndFound_at:
  assumes "std_map (tracked_models s)" and "map_of (tracked_models s) k = Some p"
  shows "map_of (frames_found (updateLostAndFound m s)) k =
     (if map_of m k \<noteq> None
      then (if map_of (model_idx_in_list s) k = None
            then Some (map_at (frames_found s) k + 1) else map_of (frames_found s) k)
      else Some 0)"
    and "map_of (frames_lost (updateLostAndFound m s)) k =
     (if map_of m k \<noteq> None then Some 0 else Some (map_at (frames_lost s) k + 1))"
proof -
  have e: "(k, p) \<in> set (tracked_models s)" using assms(2) by (rule map_of_SomeD)
  have d: "distinct (map fst (tracked_models s))" using assms(1) by (rule std_map_distinct)
  show "map_of (frames_found (updateLostAndFound m s)) k =
     (if map_of m k \<noteq> None
      then (if map_of (model_idx_in_list s) k = None
            then Some (map_at (frames_found s) k + 1) else map_of (frames_found s) k)
      else Some 0)"
    using fold_lost_and_found_self[OF d e, of m s] lost_and_found_step_self(1)[of m "(k, p)" s]
    by (simp add: updateLostAndFound_def)
  show "map_of (frames_lost (updateLostAndFound m s)) k =
     (if map_of m k \<noteq> None then Some 0 else Some (map_at (frames_lost s) k + 1))"
    using fold_lost_and_found_self[OF d e, of m s] lost_and_found_step_self(2)[of m "(k, p)" s]
    by (simp add: updateLostAndFound_def)
qed

text \<open>
  Claim C7, as the code has it. For every tracked identity, in every frame: when it is
  matched, its lost-streak is reset to 0, and its found-streak is incremented if it is
  not materialized and left as it is otherwise (a materialized identity has neither
  counter incremented); when it is not matched, its found-streak is reset to 0 and its
  lost-streak is incremented, materialized or not. A counter without an entry counts
  as 0, as \<^verbatim>\<open>operator[]\<close> creates it.
\<close>

theorem updateLostAndFound_counters:
  assumes "std_map (tracked_models s)" and "map_of (tracked_models s) k = Some p"
  shows "(map_of new_matches k \<noteq> None \<longrightarrow>
            map_of (frames_lost (updateLostAndFound new_matches s)) k = Some 0 \<and>
            map_of (frames_found (updateLostAndFound new_matches s)) k =
              (if map_of (model_idx_in_list s) k = None
               then Some (map_at (frames_found s) k + 1) else map_of (frames_found s) k))
       \<and> (map_of new_matches k = None \<longrightarrow>
            map_of (frames_found (updateLostAndFound new_matches s)) k = Some 0 \<and>
            map_of (frames_lost (updateLostAndFound new_matches s)) k =
              Some (map_at (frames_lost s) k + 1))"
  using updateLostAndFound_at[OF assms, of new_matches] by simp

theorem updateLostAndFound_counters_witness:
  "std_map (tracked_models tie_state) \<and> map_of (tracked_models tie_state) 0 = Some 0
   \<and> map_of [(0, 0 :: nat)] (0 :: int) \<noteq> None
   \<and> map_of (frames_lost (updateLostAndFound [(0, 0)] tie_state)) 0 = Some 0
   \<and> map_of (frames_found (updateLostAndFound [(0, 0)] tie_state)) 0 = Some 2
   \<and> map_of [(0, 0 :: nat)] (1 :: int) = None
   \<and> map_of (frames_found (updateLostAndFound [(0, 0)] tie_state)) 1 = Some 0
   \<and> map_of (frames_lost (updateLostAndFound [(0, 0)] tie_state)) 1 = Some 1"
  using updateLostAndFound_counters[of tie_state 0 0 "[(0, 0)]"]
    updateLostAndFound_counters[of tie_state 1 1 "[(0, 0)]"]
  by (simp add: tie_state_def std_map_def map_at_def)

text \<open>
  Claim C7 as stated fails: in \<open>confirmed_state\<close> identity 0 is tracked and
  materialized, without a found-streak and with lost-streak 0. A sixth frame whose
  obstacle matches it changes the frame count and nothing else: neither counter is
  incremented.
\<close>

theorem updateLostAndFound_counterexample:
  "map_of (tracked_models confirmed_state) 0 = Some 1
   \<and> map_of (snd (matchToPrevious centroid (confirmed_state\<lparr>frame_cnt := 6\<rparr>) [6])) 0 = Some 0
   \<and> frames_found confirmed_state = [] \<and> frames_lost confirmed_state = [(0, 0)]
   \<and> updateObstacles centroid confirmed_state [6] = Some (confirmed_state\<lparr>frame_cnt := 6\<rparr>)"
  by (simp add: run_defs confirmed_state_def h0_def sphere_at_def fun_eq_iff)

subsection \<open>matchToPrevious\<close>

lemma getMatchByDistance_match_of:
  "getMatchByDistance cp s a =
     (case match_of cp s a of None \<Rightarrow> nextModelId s | Some k \<Rightarrow> (k, s))"
  by (simp add: getMatchByDistance_eq match_of_def nextModelId_def Let_def)

lemma match_of_next [simp]: "match_of cp (s\<lparr>next_model_id := n\<rparr>) a = match_of cp s a"
  by (simp add: match_of_def Let_def)

lemma match_of_tracked:
  assumes "match_of cp s a = Some k"
  shows "k \<in> fst ` set (tracked_models s)"
proof -
  let ?q = "cp (obj_model (objects s a))"
  let ?cs = "filter (candidate cp (objects s) ?q) (tracked_models s)"
  have ne: "?cs \<noteq> []" and k: "k = fst (last (nearest cp (objects s) ?q ?cs))"
    using assms by (auto simp: match_of_def Let_def split: if_splits)
  obtain b where "b \<in> set ?cs" "last (nearest cp (objects s) ?q ?cs) = b"
    using match_fold_inv[of cp "objects s" ?q "tracked_models s" NaN 0] ne by blast
  then show ?thesis using k by auto
qed

lemma assigned_next [simp]:
  "assigned cp (s\<lparr>next_model_id := n'\<rparr>) n i obs = assigned cp s n i obs"
  by (induction obs arbitrary: n i) (auto split: option.splits)

lemma match_all_eq:
  "match_all cp obs i (s, corr, nif) =
     (s\<lparr>next_model_id := next_model_id s + int (length (filter (\<lambda>a. match_of cp s a = None) obs))\<rparr>,
      fold (\<lambda>e. map_assign (fst e) (snd e)) (assigned cp s (next_model_id s) i obs) corr,
      nif @ filter (\<lambda>e. map_of (tracked_models s) (fst e) = None)
              (assigned cp s (next_model_id s) i obs))"
proof (induction obs arbitrary: s i corr nif)
  case Nil
  show ?case by simp
next
  case (Cons a obs)
  show ?case
  proof (cases "match_of cp s a")
    case None
    then show ?thesis
      by (simp add: match_obstacle_def getMatchByDistance_match_of nextModelId_def Cons.IH)
  next
    case (Some k)
    then show ?thesis
      by (simp add: match_obstacle_def getMatchByDistance_match_of Cons.IH)
  qed
qed

lemma length_assigned [simp]: "length (assigned cp s n i obs) = length obs"
  by (induction obs arbitrary: n i) (auto split: option.splits)

lemma assigned_nth:
  "t < length obs \<Longrightarrow>
     assigned cp s n i obs ! t =
       ((case match_of cp s (obs ! t) of Some k \<Rightarrow> k
         | None \<Rightarrow> n + int (length (filter (\<lambda>a. match_of cp s a = None) (take t obs)))),
        i + t)"
proof (induction obs arbitrary: n i t)
  case Nil
  then show ?case by simp
next
  case (Cons a obs)
  show ?case
  proof (cases t)
    case 0
    then show ?thesis by (simp split: option.splits)
  next
    case (Suc u)
    then have "u < length obs" using Cons.prems by simp
    then show ?thesis using Suc Cons.IH[of u] by (auto split: option.splits)
  qed
qed

lemma map_snd_assigned: "map snd (assigned cp s n i obs) = [i..<i + length obs]"
proof (rule nth_equalityI)
  show "length (map snd (assigned cp s n i obs)) = length [i..<i + length obs]" by simp
next
  fix t assume "t < length (map snd (assigned cp s n i obs))"
  then show "map snd (assigned cp s n i obs) ! t = [i..<i + length obs] ! t"
    by (simp add: assigned_nth)
qed

lemma map_of_fold_assign:
  "map_of (fold (\<lambda>e. map_assign (fst e) (f e)) ps m) k =
     (case map_of (rev (map (\<lambda>e. (fst e, f e)) ps)) k of Some v \<Rightarrow> Some v | None \<Rightarrow> map_of m k)"
proof (induction ps rule: rev_induct)
  case Nil
  show ?case by simp
next
  case (snoc p ps)
  show ?case
    by (simp add: snoc.IH map_of_map_assign)
qed

lemma map_of_unique:
  "(k, v) \<in> set l \<Longrightarrow> (\<And>v'. (k, v') \<in> set l \<Longrightarrow> v' = v) \<Longrightarrow> map_of l k = Some v"
  by (metis map_of_SomeD weak_map_of_SomeI)

lemma map_of_rev_last:
  fixes l :: "(int \<times> nat) list"
  shows "sorted_wrt (<) (map snd l) \<Longrightarrow> (k, v') \<in> set l \<Longrightarrow>
     \<exists>v. v' \<le> v \<and> map_of (rev l) k = Some v \<and> (k, v) \<in> set l"
proof (induction l rule: rev_induct)
  case Nil
  then show ?case by simp
next
  case (snoc x l)
  obtain k0 v0 where x: "x = (k0, v0)" by (cases x) auto
  have sl: "sorted_wrt (<) (map snd l)" and lt: "\<forall>y \<in> set l. snd y < v0"
    using snoc.prems(1) x by (auto simp: sorted_wrt_append)
  show ?case
  proof (cases "k0 = k")
    case True
    have "v' \<le> v0" using snoc.prems(2) x lt by auto
    then show ?thesis using True x by auto
  next
    case False
    then have "(k, v') \<in> set l" using snoc.prems(2) x by auto
    then show ?thesis using snoc.IH[OF sl] False x by auto
  qed
qed

lemma fold_insert_new_frame:
  "next_model_id (fold (insert_new obs) nif s) = next_model_id s"
  "materialized_models (fold (insert_new obs) nif s) = materialized_models s"
  "model_idx_in_list (fold (insert_new obs) nif s) = model_idx_in_list s"
  "frame_cnt (fold (insert_new obs) nif s) = frame_cnt s"
  "list_nodes (fold (insert_new obs) nif s) = list_nodes s"
  by (induction nif arbitrary: s; simp add: insert_new_def Let_def)+

lemma fold_insert_new_tracked:
  "tracked_models (fold (insert_new obs) nif s) =
     fold (\<lambda>e. map_assign (fst e) (obs ! snd e)) nif (tracked_models s)"
  by (induction nif arbitrary: s) (simp_all add: insert_new_def Let_def)

lemma fold_insert_new_found:
  "frames_found (fold (insert_new obs) nif s) =
     fold (\<lambda>e. map_assign (fst e) 0) nif (frames_found s)"
  by (induction nif arbitrary: s) (simp_all add: insert_new_def Let_def)

lemma fold_insert_new_lost:
  "frames_lost (fold (insert_new obs) nif s) =
     fold (\<lambda>e. map_assign (fst e) 0) nif (frames_lost s)"
  by (induction nif arbitrary: s) (simp_all add: insert_new_def Let_def)

lemma fold_insert_new_model:
  "obj_model (objects (fold (insert_new obs) nif s) a) = obj_model (objects s a)"
  by (induction nif arbitrary: s) (simp_all add: insert_new_def Let_def)

lemma fold_insert_new_untouched:
  "a \<notin> (\<lambda>e. obs ! snd e) ` set nif \<Longrightarrow> objects (fold (insert_new obs) nif s) a = objects s a"
  by (induction nif arbitrary: s) (simp_all add: insert_new_def Let_def)

lemma objects_insert_new:
  "objects (insert_new obs e s) a =
     (if a = obs ! snd e then (objects s a)\<lparr>obj_id := fst e\<rparr> else objects s a)"
  by (simp add: insert_new_def Let_def)

lemma fold_insert_new_id:
  "(k, i) \<in> set nif \<Longrightarrow> (\<And>e. e \<in> set nif \<Longrightarrow> obs ! snd e = obs ! i \<Longrightarrow> e = (k, i)) \<Longrightarrow>
     obj_id (objects (fold (insert_new obs) nif s) (obs ! i)) = k"
proof (induction nif arbitrary: s rule: rev_induct)
  case Nil
  then show ?case by simp
next
  case (snoc e nif)
  have step: "fold (insert_new obs) (nif @ [e]) s = insert_new obs e (fold (insert_new obs) nif s)"
    by simp
  show ?case
  proof (cases "obs ! snd e = obs ! i")
    case True
    then have "e = (k, i)" using snoc.prems(2) by simp
    then show ?thesis unfolding step by (simp add: objects_insert_new)
  next
    case False
    then have "(k, i) \<in> set nif" using snoc.prems(1) by auto
    then have "obj_id (objects (fold (insert_new obs) nif s) (obs ! i)) = k"
      using snoc.prems(2) by (intro snoc.IH) auto
    then show ?thesis using False unfolding step by (simp add: objects_insert_new)
  qed
qed

lemma matchToPrevious_eq:
  "matchToPrevious cp s obs =
     (fold (insert_new obs)
        (filter (\<lambda>e. map_of (tracked_models s) (fst e) = None) (assigned cp s (next_model_id s) 0 obs))
        (s\<lparr>next_model_id :=
             next_model_id s + int (length (filter (\<lambda>a. match_of cp s a = None) obs))\<rparr>),
      fold (\<lambda>e. map_assign (fst e) (snd e)) (assigned cp s (next_model_id s) 0 obs) [])"
  by (simp add: matchToPrevious_def match_all_eq)

lemma map_of_correspondence:
  "map_of (snd (matchToPrevious cp s obs)) k =
     map_of (rev (assigned cp s (next_model_id s) 0 obs)) k"
  using map_of_fold_assign[of snd "assigned cp s (next_model_id s) 0 obs" "[]" k]
  by (simp add: matchToPrevious_eq split: option.splits)

lemma assigned_mem_iff:
  "(k, i) \<in> set (assigned cp s (next_model_id s) 0 obs) \<longleftrightarrow>
     i < length obs \<and>
     k = (case match_of cp s (obs ! i) of Some m \<Rightarrow> m | None \<Rightarrow> fresh_id cp s obs i)"
  (is "?L \<longleftrightarrow> ?R")
proof
  assume ?L
  then obtain t where "t < length obs" "assigned cp s (next_model_id s) 0 obs ! t = (k, i)"
    by (auto simp: in_set_conv_nth)
  then show ?R by (auto simp: assigned_nth fresh_id_def unmatched_before_def split: option.splits)
next
  assume r: ?R
  then have "assigned cp s (next_model_id s) 0 obs ! i = (k, i)"
    by (simp add: assigned_nth fresh_id_def unmatched_before_def split: option.splits)
  then show ?L using r by (metis length_assigned nth_mem)
qed

lemma sorted_assigned: "sorted_wrt (<) (map snd (assigned cp s n i obs))"
  by (simp add: map_snd_assigned)

lemma unmatched_before_less:
  assumes "t < i" and "i \<le> length obs" and "match_of cp s (obs ! t) = None"
  shows "unmatched_before cp s obs t < unmatched_before cp s obs i"
proof -
  let ?P = "\<lambda>a. match_of cp s a = None"
  have t: "t < length obs" using assms by simp
  have e: "take (Suc t) (take i obs) = take (Suc t) obs"
    using assms(1) by (simp add: min_def)
  have "length (filter ?P (take i obs)) =
      length (filter ?P (take (Suc t) (take i obs) @ drop (Suc t) (take i obs)))"
    by (simp only: append_take_drop_id)
  also have "\<dots> = length (filter ?P (take (Suc t) obs)) +
      length (filter ?P (drop (Suc t) (take i obs)))"
    by (simp only: e filter_append length_append)
  finally have "length (filter ?P (take (Suc t) obs)) \<le> length (filter ?P (take i obs))"
    by simp
  moreover have "length (filter ?P (take (Suc t) obs)) = Suc (length (filter ?P (take t obs)))"
    using t assms(3) by (simp add: take_Suc_conv_app_nth)
  ultimately show ?thesis by (simp add: unmatched_before_def)
qed

lemma fresh_id_inj:
  assumes "t < length obs" and "i < length obs"
    and "match_of cp s (obs ! t) = None" and "match_of cp s (obs ! i) = None"
    and "fresh_id cp s obs t = fresh_id cp s obs i"
  shows "t = i"
proof (rule ccontr)
  assume "t \<noteq> i"
  then consider "t < i" | "i < t" by linarith
  then show False
  proof cases
    case 1
    then show ?thesis using unmatched_before_less[of t i obs cp s] assms by (simp add: fresh_id_def)
  next
    case 2
    then show ?thesis using unmatched_before_less[of i t obs cp s] assms by (simp add: fresh_id_def)
  qed
qed

lemma fresh_id_not_tracked:
  assumes "ids_below_counter s"
  shows "fresh_id cp s obs i \<notin> fst ` set (tracked_models s)"
proof
  assume "fresh_id cp s obs i \<in> fst ` set (tracked_models s)"
  then obtain e where "e \<in> set (tracked_models s)" and "fst e = fresh_id cp s obs i" by auto
  then have "fresh_id cp s obs i < next_model_id s"
    using assms unfolding ids_below_counter_def by auto
  then show False by (simp add: fresh_id_def)
qed

lemma fresh_id_untracked:
  "ids_below_counter s \<Longrightarrow> map_of (tracked_models s) (fresh_id cp s obs i) = None"
  using fresh_id_not_tracked[of s cp obs i] by (simp add: map_of_eq_None_iff)

lemma fresh_id_not_match:
  "ids_below_counter s \<Longrightarrow> match_of cp s a = Some m \<Longrightarrow> m \<noteq> fresh_id cp s obs i"
  using match_of_tracked[of cp s a m] fresh_id_not_tracked[of s cp obs i] by blast

text \<open>Under the invariant, a fresh identity is given to one obstacle of the frame only.\<close>

lemma fresh_id_once:
  assumes inv: "ids_below_counter s" and i: "i < length obs"
    and un: "match_of cp s (obs ! i) = None"
    and mem: "(fresh_id cp s obs i, t) \<in> set (assigned cp s (next_model_id s) 0 obs)"
  shows "t = i"
proof -
  have t: "t < length obs"
    and k: "fresh_id cp s obs i =
      (case match_of cp s (obs ! t) of Some m \<Rightarrow> m | None \<Rightarrow> fresh_id cp s obs t)"
    using mem by (simp_all add: assigned_mem_iff)
  show ?thesis
  proof (cases "match_of cp s (obs ! t)")
    case None
    then show ?thesis using k fresh_id_inj[OF t i None un] by simp
  next
    case (Some m)
    then show ?thesis using k fresh_id_not_match[OF inv Some, of obs i] by simp
  qed
qed

lemma unmatched_entry:
  assumes inv: "ids_below_counter s" and i: "i < length obs"
    and un: "match_of cp s (obs ! i) = None"
  shows "map_of (snd (matchToPrevious cp s obs)) (fresh_id cp s obs i) = Some i"
    and "map_of (tracked_models (fst (matchToPrevious cp s obs))) (fresh_id cp s obs i) = Some (obs ! i)"
proof -
  let ?ps = "assigned cp s (next_model_id s) 0 obs"
  let ?k = "fresh_id cp s obs i"
  let ?nif = "filter (\<lambda>e. map_of (tracked_models s) (fst e) = None) ?ps"
  have mem: "(?k, i) \<in> set ?ps" using i un by (simp add: assigned_mem_iff)
  have once: "\<And>t. (?k, t) \<in> set ?ps \<Longrightarrow> t = i"
    using fresh_id_once[OF inv i un] by blast
  show "map_of (snd (matchToPrevious cp s obs)) ?k = Some i"
    unfolding map_of_correspondence using mem once by (intro map_of_unique) auto
  have "map_of (rev (map (\<lambda>e. (fst e, obs ! snd e)) ?nif)) ?k = Some (obs ! i)"
  proof (rule map_of_unique)
    show "(?k, obs ! i) \<in> set (rev (map (\<lambda>e. (fst e, obs ! snd e)) ?nif))"
      using mem fresh_id_untracked[OF inv, of cp obs i] by (force simp: image_iff)
  next
    fix v' assume "(?k, v') \<in> set (rev (map (\<lambda>e. (fst e, obs ! snd e)) ?nif))"
    then obtain t where "(?k, t) \<in> set ?ps" "v' = obs ! t" by auto
    then have "t = i" using once by blast
    then show "v' = obs ! i" using \<open>v' = obs ! t\<close> by simp
  qed
  then show "map_of (tracked_models (fst (matchToPrevious cp s obs))) ?k = Some (obs ! i)"
    by (simp add: matchToPrevious_eq fold_insert_new_tracked map_of_fold_assign)
qed

lemma tracked_before_kept:
  assumes "map_of (tracked_models s) k = Some p"
  shows "map_of (tracked_models (fst (matchToPrevious cp s obs))) k = Some p"
proof -
  let ?nif = "filter (\<lambda>e. map_of (tracked_models s) (fst e) = None)
                (assigned cp s (next_model_id s) 0 obs)"
  have "k \<notin> fst ` set ?nif" using assms by auto
  then have "map_of (rev (map (\<lambda>e. (fst e, obs ! snd e)) ?nif)) k = None"
    by (simp add: map_of_eq_None_iff image_image)
  then show ?thesis using assms
    by (simp add: matchToPrevious_eq fold_insert_new_tracked map_of_fold_assign)
qed

lemma correspondence_entry:
  assumes "map_of (snd (matchToPrevious cp s obs)) k = Some t"
  shows "t < length obs \<and>
     k = (case match_of cp s (obs ! t) of Some m \<Rightarrow> m | None \<Rightarrow> fresh_id cp s obs t)"
proof -
  have "(k, t) \<in> set (rev (assigned cp s (next_model_id s) 0 obs))"
    using assms unfolding map_of_correspondence by (rule map_of_SomeD)
  then show ?thesis by (simp add: assigned_mem_iff)
qed

lemma matched_entry_last:
  assumes j: "j < length obs" and mj: "match_of cp s (obs ! j) = Some m"
  shows "\<exists>j'. j \<le> j' \<and> j' < length obs \<and>
     map_of (snd (matchToPrevious cp s obs)) m = Some j'"
proof -
  let ?ps = "assigned cp s (next_model_id s) 0 obs"
  have "(m, j) \<in> set ?ps" using j mj by (simp add: assigned_mem_iff)
  then obtain v where v: "j \<le> v" "map_of (rev ?ps) m = Some v" "(m, v) \<in> set ?ps"
    using map_of_rev_last[OF sorted_assigned, of m j cp s "next_model_id s" 0 obs] by blast
  then have "v < length obs" by (simp add: assigned_mem_iff)
  then show ?thesis using v by (auto simp: map_of_correspondence)
qed

lemma next_model_id_matchToPrevious:
  "next_model_id (fst (matchToPrevious cp s obs)) =
     next_model_id s + int (length (filter (\<lambda>a. match_of cp s a = None) obs))"
  by (simp add: matchToPrevious_eq fold_insert_new_frame)

text \<open>
  Claim C1, as the code has it. When two obstacles of a frame, at the indices \<open>i < j\<close>,
  both have the tracked identity \<open>m\<close> as their match, the entry of \<open>m\<close> in the
  correspondence is overwritten by each of them in turn: it ends up with an index that
  is \<open>j\<close> or later, whichever of the obstacles is closer. The obstacle at \<open>i\<close> is in no
  entry of the correspondence, and the identity counter advances only by the number of
  obstacles without a match, so the obstacle at \<open>i\<close> gets no fresh identity either.
\<close>

theorem same_identity_later_observation_wins:
  assumes "i < j" and "j < length obs"
    and "match_of cp s (obs ! i) = Some m" and "match_of cp s (obs ! j) = Some m"
  shows "(\<exists>j'. j \<le> j' \<and> j' < length obs \<and>
            map_of (snd (matchToPrevious cp s obs)) m = Some j')
       \<and> (\<forall>k. map_of (snd (matchToPrevious cp s obs)) k \<noteq> Some i)
       \<and> next_model_id (fst (matchToPrevious cp s obs)) =
           next_model_id s + int (length (filter (\<lambda>a. match_of cp s a = None) obs))"
proof -
  obtain j' where j': "j \<le> j'" "j' < length obs"
      "map_of (snd (matchToPrevious cp s obs)) m = Some j'"
    using matched_entry_last[OF assms(2) assms(4)] by blast
  have "map_of (snd (matchToPrevious cp s obs)) k \<noteq> Some i" for k
  proof
    assume a: "map_of (snd (matchToPrevious cp s obs)) k = Some i"
    then have "k = m" using correspondence_entry[OF a] assms(3) by simp
    then show False using a j' assms(1) by simp
  qed
  then show ?thesis using j' next_model_id_matchToPrevious[of cp s obs] by blast
qed

text \<open>
  Claim C2. Every entry of the correspondence pairs an obstacle with its match in the
  tracked table as it was before the frame, or with a fresh identity: no obstacle is
  matched to another obstacle of its frame. Two obstacles of a frame that both have no
  match in that table, however close they are to each other, get two different fresh
  identities, each has its own entry in the correspondence, and each is entered into
  the tracked table under its identity when the loop over the frame is over.
\<close>

theorem unmatched_observations_fresh_ids:
  assumes "ids_below_counter s" and "i < j" and "j < length obs"
    and "match_of cp s (obs ! i) = None" and "match_of cp s (obs ! j) = None"
  shows "fresh_id cp s obs i \<noteq> fresh_id cp s obs j
       \<and> next_model_id s \<le> fresh_id cp s obs i \<and> next_model_id s \<le> fresh_id cp s obs j
       \<and> map_of (tracked_models s) (fresh_id cp s obs i) = None
       \<and> map_of (tracked_models s) (fresh_id cp s obs j) = None
       \<and> map_of (snd (matchToPrevious cp s obs)) (fresh_id cp s obs i) = Some i
       \<and> map_of (snd (matchToPrevious cp s obs)) (fresh_id cp s obs j) = Some j
       \<and> map_of (tracked_models (fst (matchToPrevious cp s obs))) (fresh_id cp s obs i)
           = Some (obs ! i)
       \<and> map_of (tracked_models (fst (matchToPrevious cp s obs))) (fresh_id cp s obs j)
           = Some (obs ! j)
       \<and> (\<forall>k t. map_of (snd (matchToPrevious cp s obs)) k = Some t \<longrightarrow>
             t < length obs \<and>
             k = (case match_of cp s (obs ! t) of Some m \<Rightarrow> m | None \<Rightarrow> fresh_id cp s obs t))"
proof -
  have i: "i < length obs" using assms(2,3) by simp
  have "fresh_id cp s obs i \<noteq> fresh_id cp s obs j"
    using fresh_id_inj[OF i assms(3) assms(4) assms(5)] assms(2) by auto
  moreover have "next_model_id s \<le> fresh_id cp s obs i" "next_model_id s \<le> fresh_id cp s obs j"
    by (simp_all add: fresh_id_def)
  ultimately show ?thesis
    using unmatched_entry[OF assms(1) i assms(4)] unmatched_entry[OF assms(1) assms(3) assms(5)]
      fresh_id_untracked[OF assms(1)] correspondence_entry[of cp s obs]
    by blast
qed

lemma matched_pointer_not_new:
  assumes d: "distinct obs" and i: "i < length obs" and m: "match_of cp s (obs ! i) = Some m"
    and e: "e \<in> set (filter (\<lambda>e. map_of (tracked_models s) (fst e) = None)
                      (assigned cp s (next_model_id s) 0 obs))"
  shows "obs ! snd e \<noteq> obs ! i"
proof
  assume eq: "obs ! snd e = obs ! i"
  have mem: "(fst e, snd e) \<in> set (assigned cp s (next_model_id s) 0 obs)"
    and un: "map_of (tracked_models s) (fst e) = None" using e by auto
  have c: "snd e < length obs \<and> fst e =
      (case match_of cp s (obs ! snd e) of Some m \<Rightarrow> m | None \<Rightarrow> fresh_id cp s obs (snd e))"
    using mem assigned_mem_iff[of "fst e" "snd e" cp s obs] by simp
  have t: "snd e < length obs" using c by simp
  have "snd e = i" using eq d t i by (simp add: nth_eq_iff_index_eq)
  then have "fst e = m" using c m by simp
  moreover have "m \<in> fst ` set (tracked_models s)" using m by (rule match_of_tracked)
  ultimately show False using un by (simp add: map_of_eq_None_iff)
qed

text \<open>
  Claim C10, as the code has it, for a frame whose pointers are distinct. An obstacle
  without a match is kept: its pointer is stored in the tracked table under its fresh
  identity, and \<^verbatim>\<open>set_id\<close> writes that identity into the object. An obstacle with a
  match is left as it was, and no entry of the tracked table comes to point to it.
\<close>

theorem unmatched_observation_becomes_tracked:
  assumes inv: "ids_below_counter s" and d: "distinct obs" and i: "i < length obs"
  shows "(match_of cp s (obs ! i) = None \<longrightarrow>
            map_of (tracked_models (fst (matchToPrevious cp s obs))) (fresh_id cp s obs i)
              = Some (obs ! i)
          \<and> objects (fst (matchToPrevious cp s obs)) (obs ! i)
              = (objects s (obs ! i))\<lparr>obj_id := fresh_id cp s obs i\<rparr>)
       \<and> (match_of cp s (obs ! i) \<noteq> None \<longrightarrow>
            objects (fst (matchToPrevious cp s obs)) (obs ! i) = objects s (obs ! i)
          \<and> (\<forall>k. map_of (tracked_models (fst (matchToPrevious cp s obs))) k = Some (obs ! i) \<longrightarrow>
                 map_of (tracked_models s) k = Some (obs ! i)))"
proof (intro conjI impI)
  let ?ps = "assigned cp s (next_model_id s) 0 obs"
  let ?nif = "filter (\<lambda>e. map_of (tracked_models s) (fst e) = None) ?ps"
  let ?s1 = "s\<lparr>next_model_id :=
             next_model_id s + int (length (filter (\<lambda>a. match_of cp s a = None) obs))\<rparr>"
  {
    assume un: "match_of cp s (obs ! i) = None"
    show "map_of (tracked_models (fst (matchToPrevious cp s obs))) (fresh_id cp s obs i)
        = Some (obs ! i)"
      using unmatched_entry(2)[OF inv i un] .
    have mem: "(fresh_id cp s obs i, i) \<in> set ?nif"
      using i un fresh_id_untracked[OF inv, of cp obs i] by (simp add: assigned_mem_iff)
    have uniq: "e = (fresh_id cp s obs i, i)" if "e \<in> set ?nif" "obs ! snd e = obs ! i" for e
    proof -
      have m: "(fst e, snd e) \<in> set ?ps" using that(1) by auto
      have c: "snd e < length obs \<and> fst e =
          (case match_of cp s (obs ! snd e) of Some m \<Rightarrow> m | None \<Rightarrow> fresh_id cp s obs (snd e))"
        using m assigned_mem_iff[of "fst e" "snd e" cp s obs] by simp
      then have "snd e < length obs" by simp
      then have "snd e = i" using that(2) d i by (simp add: nth_eq_iff_index_eq)
      then have "fst e = fresh_id cp s obs i" using c un by simp
      then show ?thesis using \<open>snd e = i\<close> by (cases e) simp
    qed
    have "obj_id (objects (fold (insert_new obs) ?nif ?s1) (obs ! i)) = fresh_id cp s obs i"
      using mem uniq by (rule fold_insert_new_id)
    moreover have "obj_model (objects (fold (insert_new obs) ?nif ?s1) (obs ! i)) =
        obj_model (objects s (obs ! i))"
      by (simp add: fold_insert_new_model)
    ultimately show "objects (fst (matchToPrevious cp s obs)) (obs ! i)
        = (objects s (obs ! i))\<lparr>obj_id := fresh_id cp s obs i\<rparr>"
      by (simp add: matchToPrevious_eq)
  }
  {
    assume "match_of cp s (obs ! i) \<noteq> None"
    then obtain m where m: "match_of cp s (obs ! i) = Some m" by auto
    have notin: "obs ! i \<notin> (\<lambda>e. obs ! snd e) ` set ?nif"
    proof
      assume "obs ! i \<in> (\<lambda>e. obs ! snd e) ` set ?nif"
      then obtain e where "e \<in> set ?nif" and "obs ! i = obs ! snd e" by auto
      then show False using matched_pointer_not_new[OF d i m, of e] by simp
    qed
    then show "objects (fst (matchToPrevious cp s obs)) (obs ! i) = objects s (obs ! i)"
      by (simp add: matchToPrevious_eq fold_insert_new_untouched)
    show "\<forall>k. map_of (tracked_models (fst (matchToPrevious cp s obs))) k = Some (obs ! i) \<longrightarrow>
        map_of (tracked_models s) k = Some (obs ! i)"
    proof (intro allI impI)
      fix k
      assume a: "map_of (tracked_models (fst (matchToPrevious cp s obs))) k = Some (obs ! i)"
      show "map_of (tracked_models s) k = Some (obs ! i)"
      proof (cases "map_of (rev (map (\<lambda>e. (fst e, obs ! snd e)) ?nif)) k")
        case None
        then show ?thesis using a
          by (simp add: matchToPrevious_eq fold_insert_new_tracked map_of_fold_assign)
      next
        case (Some v)
        then have "v = obs ! i" using a
          by (simp add: matchToPrevious_eq fold_insert_new_tracked map_of_fold_assign)
        moreover have "(k, v) \<in> set (rev (map (\<lambda>e. (fst e, obs ! snd e)) ?nif))"
          using Some by (rule map_of_SomeD)
        ultimately have "obs ! i \<in> (\<lambda>e. obs ! snd e) ` set ?nif" by force
        then show ?thesis using notin by simp
      qed
    qed
  }
qed

lemmas match_of_defs = match_of_def candidate_def elem_dist_def nearest_def sq_dist_def dsub_def
  Let_def

theorem same_identity_later_observation_wins_witness:
  "(0::nat) < 1 \<and> 1 < length [4, 5 :: nat]
   \<and> match_of centroid tie_state ([4, 5] ! 0) = Some 0
   \<and> match_of centroid tie_state ([4, 5] ! 1) = Some 0
   \<and> map_of (snd (matchToPrevious centroid tie_state [4, 5])) 0 = Some 1
   \<and> map_of (snd (matchToPrevious centroid tie_state [4, 5])) 1 = None
   \<and> next_model_id (fst (matchToPrevious centroid tie_state [4, 5])) = 2"
  using same_identity_later_observation_wins[of 0 1 "[4, 5]" centroid tie_state 0]
  by (simp add: match_of_defs run_defs tie_state_def tie_store_def sphere_at_def)

text \<open>
  Claim C1 as stated fails: in \<open>tie_state\<close> the obstacles behind the pointers 4 and 5
  both match identity 0, at the squared distances 0.0001 and 0.04. After
  \<open>matchToPrevious\<close> the entry of identity 0 holds index 1, the farther obstacle; the
  closer one is in no entry, and no fresh identity has been given out.
\<close>

theorem closer_observation_counterexample:
  "match_of centroid tie_state 4 = Some 0 \<and> match_of centroid tie_state 5 = Some 0
   \<and> elem_dist centroid (objects tie_state) (centroid (obj_model (objects tie_state 4))) (0, 0)
       = Fin (1/10000)
   \<and> elem_dist centroid (objects tie_state) (centroid (obj_model (objects tie_state 5))) (0, 0)
       = Fin (4/100)
   \<and> snd (matchToPrevious centroid tie_state [4, 5]) = [(0, 1)]
   \<and> next_model_id (fst (matchToPrevious centroid tie_state [4, 5])) = next_model_id tie_state
   \<and> tracked_models (fst (matchToPrevious centroid tie_state [4, 5])) = tracked_models tie_state"
  by (simp add: match_of_defs run_defs tie_state_def tie_store_def sphere_at_def)

theorem unmatched_observations_fresh_ids_witness:
  "ids_below_counter (SmoothObstacleAggregator tie_store) \<and> (0::nat) < 1 \<and> 1 < length [0, 1 :: nat]
   \<and> match_of centroid (SmoothObstacleAggregator tie_store) ([0, 1] ! 0) = None
   \<and> match_of centroid (SmoothObstacleAggregator tie_store) ([0, 1] ! 1) = None
   \<and> dle (sq_dist (centroid (obj_model (tie_store 0))) (centroid (obj_model (tie_store 1))))
        (Fin 0.05)
   \<and> fresh_id centroid (SmoothObstacleAggregator tie_store) [0, 1] 0 = 0
   \<and> fresh_id centroid (SmoothObstacleAggregator tie_store) [0, 1] 1 = 1
   \<and> map_of (snd (matchToPrevious centroid (SmoothObstacleAggregator tie_store) [0, 1])) 0 = Some 0
   \<and> map_of (snd (matchToPrevious centroid (SmoothObstacleAggregator tie_store) [0, 1])) 1 = Some 1
   \<and> map_of (tracked_models (fst (matchToPrevious centroid (SmoothObstacleAggregator tie_store) [0, 1]))) 0
       = Some 0
   \<and> map_of (tracked_models (fst (matchToPrevious centroid (SmoothObstacleAggregator tie_store) [0, 1]))) 1
       = Some 1"
  using unmatched_observations_fresh_ids[of "SmoothObstacleAggregator tie_store" 0 1 "[0, 1]" centroid]
  by (simp add: match_of_defs ids_below_counter_def fresh_id_def unmatched_before_def
      SmoothObstacleAggregator_def tie_store_def sphere_at_def)

theorem unmatched_observation_becomes_tracked_witness:
  "ids_below_counter tie_state \<and> distinct [2, 3 :: nat]
   \<and> match_of centroid tie_state ([2, 3] ! 1) = None
   \<and> fresh_id centroid tie_state [2, 3] 1 = 2
   \<and> map_of (tracked_models (fst (matchToPrevious centroid tie_state [2, 3]))) 2 = Some 3
   \<and> objects (fst (matchToPrevious centroid tie_state [2, 3])) 3 = (objects tie_state 3)\<lparr>obj_id := 2\<rparr>
   \<and> match_of centroid tie_state ([2, 3] ! 0) = Some 1
   \<and> objects (fst (matchToPrevious centroid tie_state [2, 3])) 2 = objects tie_state 2"
  using unmatched_observation_becomes_tracked[of tie_state "[2, 3]" 1 centroid]
    unmatched_observation_becomes_tracked[of tie_state "[2, 3]" 0 centroid]
  by (simp add: match_of_defs ids_below_counter_def fresh_id_def unmatched_before_def
      tie_state_def tie_store_def sphere_at_def)

text \<open>
  Claim C10 as stated fails: the object behind pointer 1, the only obstacle of the first
  frame, comes with identity -1; after \<open>matchToPrevious\<close> the tracked table points to
  this very object and its identity is 0. Four frames later it is still tracked, and it
  is what the aggregator hands to the attached aggregators.
\<close>

theorem observation_retained_counterexample:
  "obj_id (objects (SmoothObstacleAggregator h0) 1) = - 1
   \<and> tracked_models (fst (matchToPrevious centroid (SmoothObstacleAggregator h0) [1])) = [(0, 1)]
   \<and> obj_id (objects (fst (matchToPrevious centroid (SmoothObstacleAggregator h0) [1])) 1) = 0
   \<and> run centroid (SmoothObstacleAggregator h0) [[1], [2], [3], [4], [5]] = Some confirmed_state
   \<and> tracked_models confirmed_state = [(0, 1)]
   \<and> copyMaterialized confirmed_state = [1]"
  using confirmed_state_reached
  by (simp add: run_defs h0_def sphere_at_def confirmed_state_def)

subsection \<open>adaptTracked\<close>

lemma points_accept: "points (accept v m) = map (\<lambda>p. cadd p v) (points m)"
  by (induction v m rule: accept.induct)
    (simp_all add: visitSphere_def visitCapsule_def map_concat comp_def cong: map_cong)

lemma skeleton_accept: "skeleton (accept v m) = skeleton m"
  by (induction v m rule: accept.induct)
    (simp_all add: visitSphere_def visitCapsule_def cong: map_cong)

lemma is_composite_accept: "is_composite (accept v m) = is_composite m"
  by (cases m) (simp_all add: is_composite_def visitSphere_def visitCapsule_def)

lemma halfway_double:
  "is_finite a \<Longrightarrow> is_finite b \<Longrightarrow> dadd a (ddiv2 (dsub b a)) = ddiv2 (dadd a b)"
  by (cases a; cases b) (simp_all add: is_finite_def dsub_def field_simps)

lemma halfway_point:
  "finite_point p \<Longrightarrow> finite_point q \<Longrightarrow> cadd p (cdiv2 (csub q p)) = midpoint p q"
  by (simp add: finite_point_def cadd_def cdiv2_def csub_def midpoint_def halfway_double)

lemma blend_other: "p \<noteq> a \<Longrightarrow> blend cp a b h p = h p"
  by (simp add: blend_def Let_def)

lemma blend_self:
  "blend cp a b h a =
     (h a)\<lparr>obj_model :=
        accept (cdiv2 (csub (cp (obj_model (h b))) (cp (obj_model (h a))))) (obj_model (h a))\<rparr>"
  by (simp add: blend_def Let_def)

lemma refresh_other: "p \<noteq> a \<Longrightarrow> refresh a b h p = h p"
  by (simp add: refresh_def split: ObjectModel.splits)

lemma refresh_self:
  "refresh a b h a =
     (if is_composite (obj_model (h a)) \<and> is_composite (obj_model (h b))
      then (h a)\<lparr>obj_model := obj_model (h b)\<rparr> else h a)"
  by (simp add: refresh_def is_composite_def split: ObjectModel.splits)

lemma adapt_store_other: "p \<noteq> a \<Longrightarrow> adapt_store cp cnt a b h p = h p"
  by (simp add: adapt_store_def refresh_other blend_other)

lemma adapt_store_cong:
  "h a = h' a \<Longrightarrow> h b = h' b \<Longrightarrow> adapt_store cp cnt a b h a = adapt_store cp cnt a b h' a"
  by (cases "a = b") (simp_all add: adapt_store_def refresh_self blend_self blend_other)

lemma adapt_step_eq:
  "adapt_step cp obs e s =
     (case map_of (tracked_models s) (fst e) of
        None \<Rightarrow> None
      | Some a \<Rightarrow>
          if length obs \<le> snd e then None
          else Some (s\<lparr>objects := adapt_store cp (frame_cnt s) a (obs ! snd e) (objects s)\<rparr>))"
  by (simp add: adapt_step_def adapt_store_def Let_def split: option.splits)

lemma adaptTracked_defined:
  "(\<forall>e \<in> set corr. snd e < length obs \<and> map_of (tracked_models s) (fst e) \<noteq> None) \<Longrightarrow>
     \<exists>h'. fold_opt (adapt_step cp obs) corr s = Some (s\<lparr>objects := h'\<rparr>)"
proof (induction corr arbitrary: s)
  case Nil
  have "s = s\<lparr>objects := objects s\<rparr>" by simp
  then show ?case by (metis fold_opt.simps(1))
next
  case (Cons e corr)
  obtain a where a: "map_of (tracked_models s) (fst e) = Some a" and i: "snd e < length obs"
    using Cons.prems by auto
  let ?s1 = "s\<lparr>objects := adapt_store cp (frame_cnt s) a (obs ! snd e) (objects s)\<rparr>"
  have step: "adapt_step cp obs e s = Some ?s1" using a i by (simp add: adapt_step_eq)
  have "\<forall>e \<in> set corr. snd e < length obs \<and> map_of (tracked_models ?s1) (fst e) \<noteq> None"
    using Cons.prems by simp
  then obtain h' where "fold_opt (adapt_step cp obs) corr ?s1 = Some (?s1\<lparr>objects := h'\<rparr>)"
    using Cons.IH[of ?s1] by blast
  then show ?case using step by auto
qed

lemma adaptTracked_untouched:
  "(\<forall>e \<in> set corr. \<exists>a'. map_of (tracked_models s) (fst e) = Some a' \<and> a' \<noteq> p) \<Longrightarrow>
     fold_opt (adapt_step cp obs) corr s = Some s' \<Longrightarrow> objects s' p = objects s p"
proof (induction corr arbitrary: s)
  case Nil
  then show ?case by simp
next
  case (Cons e corr)
  obtain a where a: "map_of (tracked_models s) (fst e) = Some a" and ne: "a \<noteq> p"
    using Cons.prems(1) by auto
  let ?s1 = "s\<lparr>objects := adapt_store cp (frame_cnt s) a (obs ! snd e) (objects s)\<rparr>"
  obtain s1 where s1: "adapt_step cp obs e s = Some s1"
    and rest1: "fold_opt (adapt_step cp obs) corr s1 = Some s'"
    using Cons.prems(2) by (auto split: option.splits)
  have "s1 = ?s1" using s1 a unfolding adapt_step_eq by (simp split: if_splits)
  then have rest: "fold_opt (adapt_step cp obs) corr ?s1 = Some s'" using rest1 by simp
  have "\<forall>e \<in> set corr. \<exists>a'. map_of (tracked_models ?s1) (fst e) = Some a' \<and> a' \<noteq> p"
    using Cons.prems(1) by simp
  then have "objects s' p = objects ?s1 p" using rest by (rule Cons.IH)
  then show ?case using ne by (simp add: adapt_store_other)
qed

lemma adaptTracked_target:
  assumes "distinct (map fst corr)" and "(k, i) \<in> set corr"
    and "map_of (tracked_models s) k = Some a"
    and "other_entries_apart s corr obs k a (obs ! i)"
    and "fold_opt (adapt_step cp obs) corr s = Some s'"
  shows "objects s' a = adapt_store cp (frame_cnt s) a (obs ! i) (objects s) a"
  using assms
proof (induction corr arbitrary: s)
  case Nil
  then show ?case by simp
next
  case (Cons e corr)
  have ap: "\<forall>x \<in> set corr. snd x < length obs \<and>
      (case map_of (tracked_models s) (fst x) of None \<Rightarrow> False
       | Some a' \<Rightarrow> fst x = k \<or> (a' \<noteq> a \<and> a' \<noteq> obs ! i))"
    using Cons.prems(4) by (simp add: other_entries_apart_def)
  show ?case
  proof (cases "e = (k, i)")
    case True
    let ?s1 = "s\<lparr>objects := adapt_store cp (frame_cnt s) a (obs ! i) (objects s)\<rparr>"
    obtain s1 where s1: "adapt_step cp obs e s = Some s1"
      and rest1: "fold_opt (adapt_step cp obs) corr s1 = Some s'"
      using Cons.prems(5) by (auto split: option.splits)
    have "s1 = ?s1" using s1 Cons.prems(3) True unfolding adapt_step_eq by (simp split: if_splits)
    then have rest: "fold_opt (adapt_step cp obs) corr ?s1 = Some s'" using rest1 by simp
    have nk: "k \<notin> fst ` set corr" using Cons.prems(1) True by simp
    have "\<forall>x \<in> set corr. \<exists>a'. map_of (tracked_models ?s1) (fst x) = Some a' \<and> a' \<noteq> a"
    proof
      fix x assume x: "x \<in> set corr"
      then have "fst x \<noteq> k" using nk by (metis imageI)
      moreover have "case map_of (tracked_models s) (fst x) of None \<Rightarrow> False
          | Some a' \<Rightarrow> fst x = k \<or> (a' \<noteq> a \<and> a' \<noteq> obs ! i)"
        using ap x by blast
      ultimately show "\<exists>a'. map_of (tracked_models ?s1) (fst x) = Some a' \<and> a' \<noteq> a"
        by (cases "map_of (tracked_models s) (fst x)") simp_all
    qed
    then have "objects s' a = objects ?s1 a" using rest by (rule adaptTracked_untouched)
    then show ?thesis by simp
  next
    case False
    then have mem: "(k, i) \<in> set corr" using Cons.prems(2) by simp
    have "k \<in> fst ` set corr" using mem by force
    moreover have "fst e \<notin> fst ` set corr" using Cons.prems(1) by simp
    ultimately have nk: "fst e \<noteq> k" by blast
    have "case map_of (tracked_models s) (fst e) of None \<Rightarrow> False
        | Some a' \<Rightarrow> fst e = k \<or> (a' \<noteq> a \<and> a' \<noteq> obs ! i)"
      using Cons.prems(4) by (simp add: other_entries_apart_def)
    then obtain a' where a': "map_of (tracked_models s) (fst e) = Some a'"
      and ne: "a' \<noteq> a" "a' \<noteq> obs ! i"
      using nk by (cases "map_of (tracked_models s) (fst e)") simp_all
    let ?s1 = "s\<lparr>objects := adapt_store cp (frame_cnt s) a' (obs ! snd e) (objects s)\<rparr>"
    obtain s1 where s1: "adapt_step cp obs e s = Some s1"
      and rest1: "fold_opt (adapt_step cp obs) corr s1 = Some s'"
      using Cons.prems(5) by (auto split: option.splits)
    have "s1 = ?s1" using s1 a' unfolding adapt_step_eq by (simp split: if_splits)
    then have rest: "fold_opt (adapt_step cp obs) corr ?s1 = Some s'" using rest1 by simp
    have "objects s' a = adapt_store cp (frame_cnt ?s1) a (obs ! i) (objects ?s1) a"
    proof (rule Cons.IH[OF _ mem _ _ rest])
      show "distinct (map fst corr)" using Cons.prems(1) by simp
      show "map_of (tracked_models ?s1) k = Some a" using Cons.prems(3) by simp
      show "other_entries_apart ?s1 corr obs k a (obs ! i)"
        using ap by (simp add: other_entries_apart_def)
    qed
    also have "\<dots> = adapt_store cp (frame_cnt s) a (obs ! i) (objects ?s1) a"
      by simp
    also have "\<dots> = adapt_store cp (frame_cnt s) a (obs ! i) (objects s) a"
    proof (rule adapt_store_cong)
      show "objects ?s1 a = objects s a" using ne by (simp add: adapt_store_other)
      show "objects ?s1 (obs ! i) = objects s (obs ! i)" using ne by (simp add: adapt_store_other)
    qed
    finally show ?thesis .
  qed
qed

lemma adaptTracked_at:
  assumes "distinct (map fst corr)" and "(k, i) \<in> set corr"
    and "map_of (tracked_models s) k = Some a"
    and "other_entries_apart s corr obs k a (obs ! i)"
  shows "\<exists>h'. adaptTracked cp corr obs s = Some (s\<lparr>objects := h'\<rparr>) \<and>
     h' a = adapt_store cp (frame_cnt s) a (obs ! i) (objects s) a"
proof -
  have "\<forall>e \<in> set corr. snd e < length obs \<and> map_of (tracked_models s) (fst e) \<noteq> None"
    using assms(4) by (auto simp: other_entries_apart_def split: option.splits)
  then obtain h' where h': "fold_opt (adapt_step cp obs) corr s = Some (s\<lparr>objects := h'\<rparr>)"
    using adaptTracked_defined by blast
  then have "objects (s\<lparr>objects := h'\<rparr>) a = adapt_store cp (frame_cnt s) a (obs ! i) (objects s) a"
    using adaptTracked_target[OF assms] by blast
  then have "adaptTracked cp corr obs s = Some (s\<lparr>objects := h'\<rparr>) \<and>
      h' a = adapt_store cp (frame_cnt s) a (obs ! i) (objects s) a"
    using h' by (simp add: adaptTracked_def)
  then show ?thesis by (rule exI[of _ h'])
qed

text \<open>
  Claim C8, as the code has it. For an identity \<open>k\<close> that the frame matches with the
  obstacle at index \<open>i\<close>, the blend of \<open>adaptTracked\<close> translates the tracked shape by
  \<open>v = (new_center - old_center) / 2\<close> as one rigid translation of its whole structure:
  every point of the shape, the centre of a sphere, the end points of a capsule and the
  points of every child of a composite, has \<open>v\<close> added, and the structure and the
  identity of the object stay. With finite reference points, the arithmetic read over
  the reals, and a reference point that moves with the shape, the reference point of
  the blended shape is halfway between the old one and the observed one. When the
  objects tracked under the other identities of the correspondence are other objects,
  \<open>adaptTracked\<close> returns; the tracked object after it is the blended one on a frame
  whose count is not a multiple of 30 or when one of the two shapes is not a composite,
  and on a frame whose count is a multiple of 30 with two composites (two objects) it
  has the shape and the reference point of the obstacle, not the halfway point.
\<close>

theorem tracked_blend_translation:
  assumes "distinct (map fst corr)" and "(k, i) \<in> set corr"
    and "map_of (tracked_models s) k = Some a"
    and "other_entries_apart s corr obs k a (obs ! i)"
  shows "(let old = obj_model (objects s a); new = obj_model (objects s (obs ! i));
              v = cdiv2 (csub (cp new) (cp old));
              blended = blend cp a (obs ! i) (objects s) a
          in points (obj_model blended) = map (\<lambda>p. cadd p v) (points old)
           \<and> skeleton (obj_model blended) = skeleton old
           \<and> obj_id blended = obj_id (objects s a)
           \<and> (finite_point (cp old) \<and> finite_point (cp new) \<and> cp (accept v old) = cadd (cp old) v \<longrightarrow>
                cp (obj_model blended) = midpoint (cp old) (cp new))
           \<and> (\<exists>h'. adaptTracked cp corr obs s = Some (s\<lparr>objects := h'\<rparr>) \<and>
                (frame_cnt s mod 30 \<noteq> 0 \<or> \<not> (is_composite old \<and> is_composite new) \<longrightarrow>
                   h' a = blended) \<and>
                (frame_cnt s mod 30 = 0 \<and> is_composite old \<and> is_composite new \<and> a \<noteq> obs ! i \<longrightarrow>
                   obj_model (h' a) = new \<and> cp (obj_model (h' a)) = cp new \<and>
                   obj_id (h' a) = obj_id (objects s a))))"
proof -
  let ?old = "obj_model (objects s a)"
  let ?new = "obj_model (objects s (obs ! i))"
  let ?v = "cdiv2 (csub (cp ?new) (cp ?old))"
  let ?blended = "blend cp a (obs ! i) (objects s) a"
  have m: "obj_model ?blended = accept ?v ?old" and id: "obj_id ?blended = obj_id (objects s a)"
    by (simp_all add: blend_self)
  have p: "points (obj_model ?blended) = map (\<lambda>p. cadd p ?v) (points ?old)"
    unfolding m by (rule points_accept)
  have sk: "skeleton (obj_model ?blended) = skeleton ?old"
    unfolding m by (rule skeleton_accept)
  have mid: "finite_point (cp ?old) \<and> finite_point (cp ?new) \<and> cp (accept ?v ?old) = cadd (cp ?old) ?v \<longrightarrow>
      cp (obj_model ?blended) = midpoint (cp ?old) (cp ?new)"
    unfolding m by (auto simp: halfway_point)
  obtain h' where h': "adaptTracked cp corr obs s = Some (s\<lparr>objects := h'\<rparr>)"
    and at: "h' a = adapt_store cp (frame_cnt s) a (obs ! i) (objects s) a"
    using adaptTracked_at[OF assms, of cp] by blast
  have comp: "is_composite (obj_model ?blended) = is_composite ?old"
    unfolding m by (rule is_composite_accept)
  have 1: "frame_cnt s mod 30 \<noteq> 0 \<or> \<not> (is_composite ?old \<and> is_composite ?new) \<longrightarrow> h' a = ?blended"
  proof (cases "a = obs ! i")
    case True
    then show ?thesis using at comp by (auto simp: adapt_store_def refresh_self)
  next
    case False
    then show ?thesis using at comp by (auto simp: adapt_store_def refresh_self blend_other)
  qed
  have 2: "frame_cnt s mod 30 = 0 \<and> is_composite ?old \<and> is_composite ?new \<and> a \<noteq> obs ! i \<longrightarrow>
      obj_model (h' a) = ?new \<and> cp (obj_model (h' a)) = cp ?new \<and>
      obj_id (h' a) = obj_id (objects s a)"
  proof
    assume a: "frame_cnt s mod 30 = 0 \<and> is_composite ?old \<and> is_composite ?new \<and> a \<noteq> obs ! i"
    then have "h' a = (objects s a)\<lparr>obj_model := ?new\<rparr>"
      using at comp by (auto simp: adapt_store_def refresh_self blend_other blend_self)
    then show "obj_model (h' a) = ?new \<and> cp (obj_model (h' a)) = cp ?new \<and>
      obj_id (h' a) = obj_id (objects s a)" by simp
  qed
  have "adaptTracked cp corr obs s = Some (s\<lparr>objects := h'\<rparr>) \<and>
      (frame_cnt s mod 30 \<noteq> 0 \<or> \<not> (is_composite ?old \<and> is_composite ?new) \<longrightarrow> h' a = ?blended) \<and>
      (frame_cnt s mod 30 = 0 \<and> is_composite ?old \<and> is_composite ?new \<and> a \<noteq> obs ! i \<longrightarrow>
        obj_model (h' a) = ?new \<and> cp (obj_model (h' a)) = cp ?new \<and>
        obj_id (h' a) = obj_id (objects s a))"
    using h' 1 2 by (simp only: simp_thms)
  then have "\<exists>h'. adaptTracked cp corr obs s = Some (s\<lparr>objects := h'\<rparr>) \<and>
      (frame_cnt s mod 30 \<noteq> 0 \<or> \<not> (is_composite ?old \<and> is_composite ?new) \<longrightarrow> h' a = ?blended) \<and>
      (frame_cnt s mod 30 = 0 \<and> is_composite ?old \<and> is_composite ?new \<and> a \<noteq> obs ! i \<longrightarrow>
        obj_model (h' a) = ?new \<and> cp (obj_model (h' a)) = cp ?new \<and>
        obj_id (h' a) = obj_id (objects s a))"
    by (rule exI[of _ h'])
  then show ?thesis using p sk id mid by (simp add: Let_def)
qed

text \<open>
  Claim C9, as the code has it. On a frame whose count is a multiple of 30, for a matched
  identity whose tracked shape and whose obstacle are both composites (and are two
  objects), the tracked object ends the frame with the shape of the obstacle: the list of
  children is replaced as a whole after the blend, so what the blend did to the old
  children is gone and the tracked shape stands where the obstacle stands, not halfway.
  If one of the two is not a composite, the tracked object is the blended one and
  nothing else happens to it.
\<close>

theorem composite_refresh_replaces:
  assumes "distinct (map fst corr)" and "(k, i) \<in> set corr"
    and "map_of (tracked_models s) k = Some a"
    and "other_entries_apart s corr obs k a (obs ! i)"
    and "frame_cnt s mod 30 = 0"
  shows "\<exists>h'. adaptTracked cp corr obs s = Some (s\<lparr>objects := h'\<rparr>) \<and>
     (is_composite (obj_model (objects s a)) \<and> is_composite (obj_model (objects s (obs ! i))) \<and>
      a \<noteq> obs ! i \<longrightarrow>
        h' a = (objects s a)\<lparr>obj_model := obj_model (objects s (obs ! i))\<rparr>) \<and>
     (\<not> (is_composite (obj_model (objects s a)) \<and> is_composite (obj_model (objects s (obs ! i)))) \<longrightarrow>
        h' a = blend cp a (obs ! i) (objects s) a)"
proof -
  obtain h' where h': "adaptTracked cp corr obs s = Some (s\<lparr>objects := h'\<rparr>)"
    and at: "h' a = adapt_store cp (frame_cnt s) a (obs ! i) (objects s) a"
    using adaptTracked_at[OF assms(1-4), of cp] by blast
  have comp: "is_composite (obj_model (blend cp a (obs ! i) (objects s) a)) =
      is_composite (obj_model (objects s a))"
    by (simp add: blend_self is_composite_accept)
  have 1: "is_composite (obj_model (objects s a)) \<and> is_composite (obj_model (objects s (obs ! i))) \<and>
      a \<noteq> obs ! i \<longrightarrow> h' a = (objects s a)\<lparr>obj_model := obj_model (objects s (obs ! i))\<rparr>"
    using at assms(5) comp by (auto simp: adapt_store_def refresh_self blend_other blend_self)
  have 2: "\<not> (is_composite (obj_model (objects s a)) \<and> is_composite (obj_model (objects s (obs ! i)))) \<longrightarrow>
      h' a = blend cp a (obs ! i) (objects s) a"
  proof (cases "a = obs ! i")
    case True
    then show ?thesis using at comp by (auto simp: adapt_store_def refresh_self)
  next
    case False
    then show ?thesis using at comp by (auto simp: adapt_store_def refresh_self blend_other)
  qed
  have "adaptTracked cp corr obs s = Some (s\<lparr>objects := h'\<rparr>) \<and>
     (is_composite (obj_model (objects s a)) \<and> is_composite (obj_model (objects s (obs ! i))) \<and>
      a \<noteq> obs ! i \<longrightarrow>
        h' a = (objects s a)\<lparr>obj_model := obj_model (objects s (obs ! i))\<rparr>) \<and>
     (\<not> (is_composite (obj_model (objects s a)) \<and> is_composite (obj_model (objects s (obs ! i)))) \<longrightarrow>
        h' a = blend cp a (obs ! i) (objects s) a)"
    using h' 1 2 by simp
  then show ?thesis by (rule exI[of _ h'])
qed

lemma confirmed_frame:
  "5 \<le> n \<Longrightarrow> updateObstacles centroid (refresh_state\<lparr>frame_cnt := n\<rparr>) [0] = Some (refresh_state\<lparr>frame_cnt := n + 1\<rparr>)"
  by (simp add: run_defs refresh_state_def refresh_store_def composite_of_def sphere_at_def fun_eq_iff)

lemma first_frames:
  "run centroid (SmoothObstacleAggregator refresh_store) [[0], [0], [0], [0], [0]] = Some (refresh_state\<lparr>frame_cnt := 5\<rparr>)"
  by (simp add: run_defs refresh_state_def refresh_store_def composite_of_def sphere_at_def fun_eq_iff)

lemma run_append:
  "run cp s (fs @ gs) = (case run cp s fs of None \<Rightarrow> None | Some s1 \<Rightarrow> run cp s1 gs)"
  by (induction fs arbitrary: s) (auto split: option.splits)

lemma confirmed_frames:
  "5 \<le> n \<Longrightarrow> run centroid (refresh_state\<lparr>frame_cnt := n\<rparr>) (replicate m [0]) = Some (refresh_state\<lparr>frame_cnt := n + int m\<rparr>)"
proof (induction m arbitrary: n)
  case 0
  then show ?case by simp
next
  case (Suc m)
  have "run centroid (refresh_state\<lparr>frame_cnt := n + 1\<rparr>) (replicate m [0]) = Some (refresh_state\<lparr>frame_cnt := n + 1 + int m\<rparr>)"
    using Suc.prems by (intro Suc.IH) simp
  then show ?case using Suc.prems by (simp add: confirmed_frame add.commute add.left_commute)
qed

lemma refresh_state_reached:
  "run centroid (SmoothObstacleAggregator refresh_store) (replicate 5 [0] @ replicate 24 [0]) = Some refresh_state"
proof -
  have "replicate 5 [0 :: nat] = [[0], [0], [0], [0], [0]]" by (simp add: numeral_eq_Suc)
  then have "run centroid (SmoothObstacleAggregator refresh_store) (replicate 5 [0]) = Some (refresh_state\<lparr>frame_cnt := 5\<rparr>)"
    using first_frames by simp
  moreover have "run centroid (refresh_state\<lparr>frame_cnt := 5\<rparr>) (replicate 24 [0]) = Some (refresh_state\<lparr>frame_cnt := 5 + int 24\<rparr>)"
    by (rule confirmed_frames) simp
  moreover have "refresh_state\<lparr>frame_cnt := 5 + int 24\<rparr> = refresh_state" by (simp add: refresh_state_def)
  ultimately show ?thesis by (simp add: run_append)
qed

lemmas blend_defs = blend_def csub_def cdiv2_def cadd_def dsub_def visitSphere_def visitCapsule_def
  midpoint_def origin_def Let_def

theorem tracked_blend_translation_witness:
  "distinct (map fst [(0 :: int, 0 :: nat)]) \<and> (0, 0) \<in> set [(0 :: int, 0 :: nat)]
   \<and> map_of (tracked_models refresh_state) 0 = Some 0
   \<and> other_entries_apart refresh_state [(0, 0)] [1] 0 0 ([1] ! 0)
   \<and> finite_point (centroid (obj_model (objects refresh_state 0)))
   \<and> finite_point (centroid (obj_model (objects refresh_state 1)))
   \<and> centroid (accept (cdiv2 (csub (centroid (obj_model (objects refresh_state 1)))
                                   (centroid (obj_model (objects refresh_state 0)))))
                 (obj_model (objects refresh_state 0)))
       = cadd (centroid (obj_model (objects refresh_state 0)))
           (cdiv2 (csub (centroid (obj_model (objects refresh_state 1)))
                        (centroid (obj_model (objects refresh_state 0)))))
   \<and> frame_cnt refresh_state mod 30 \<noteq> 0
   \<and> points (obj_model (blend centroid 0 1 (objects refresh_state) 0))
       = [Coordinate (Fin (1/10)) (Fin 0) (Fin 0)]
   \<and> centroid (obj_model (blend centroid 0 1 (objects refresh_state) 0))
       = midpoint (centroid (obj_model (objects refresh_state 0)))
           (centroid (obj_model (objects refresh_state 1)))
   \<and> adaptTracked centroid [(0, 0)] [1] refresh_state
       = Some (refresh_state\<lparr>objects := blend centroid 0 1 (objects refresh_state)\<rparr>)
   \<and> other_entries_apart (refresh_state\<lparr>frame_cnt := 60\<rparr>) [(0, 0)] [1] 0 0 ([1] ! 0)
   \<and> frame_cnt (refresh_state\<lparr>frame_cnt := 60\<rparr>) mod 30 = 0
   \<and> is_composite (obj_model (objects refresh_state 0))
   \<and> is_composite (obj_model (objects refresh_state 1))
   \<and> adaptTracked centroid [(0, 0)] [1] (refresh_state\<lparr>frame_cnt := 60\<rparr>)
       = Some (refresh_state\<lparr>frame_cnt := 60,
            objects := refresh_store(0 := (refresh_store 0)\<lparr>obj_model := obj_model (refresh_store 1)\<rparr>)\<rparr>)"
  using tracked_blend_translation[of "[(0, 0)]" 0 0 refresh_state 0 "[1]" centroid]
    tracked_blend_translation[of "[(0, 0)]" 0 0 "refresh_state\<lparr>frame_cnt := 60\<rparr>" 0 "[1]" centroid]
  by (simp add: other_entries_apart_def refresh_state_def refresh_store_def composite_of_def
      sphere_at_def finite_point_def is_finite_def is_composite_def blend_defs refresh_def
      adaptTracked_def adapt_step_def fun_eq_iff)

text \<open>
  Claim C8 as stated fails: after 29 frames identity 0 is tracked as a composite with
  reference point at the origin; the 30th frame matches it with the obstacle behind
  pointer 1, a composite with reference point \<open>(0.2, 0, 0)\<close>. The blend puts the
  reference point halfway, at \<open>(0.1, 0, 0)\<close>, but after the frame the tracked reference
  point is \<open>(0.2, 0, 0)\<close>.
\<close>

theorem halfway_refresh_counterexample:
  "map_option (\<lambda>s. centroid (obj_model (objects s 0)))
     (run centroid (SmoothObstacleAggregator refresh_store)
        ((replicate 5 [0] @ replicate 24 [0]) @ [[1]]))
     = Some (Coordinate (Fin (2/10)) (Fin 0) (Fin 0))
   \<and> map_of (tracked_models refresh_state) 0 = Some 0
   \<and> matched_in centroid refresh_state [1] 0
   \<and> finite_point (centroid (obj_model (objects refresh_state 0)))
   \<and> finite_point (centroid (obj_model (objects refresh_state 1)))
   \<and> centroid (obj_model (blend centroid 0 1 (objects refresh_state) 0))
       = Coordinate (Fin (1/10)) (Fin 0) (Fin 0)
   \<and> midpoint (centroid (obj_model (objects refresh_state 0)))
        (centroid (obj_model (objects refresh_state 1)))
       = Coordinate (Fin (1/10)) (Fin 0) (Fin 0)
   \<and> Coordinate (Fin (2/10)) (Fin 0) (Fin 0) \<noteq> Coordinate (Fin (1/10)) (Fin 0) (Fin 0)"
proof -
  have "updateObstacles centroid refresh_state [1]
       = Some (refresh_state\<lparr>frame_cnt := 30,
            objects := refresh_store(0 := (refresh_store 0)\<lparr>obj_model := obj_model (refresh_store 1)\<rparr>)\<rparr>)"
    by (simp add: run_defs refresh_state_def refresh_store_def composite_of_def sphere_at_def
        fun_eq_iff)
  then have "run centroid (SmoothObstacleAggregator refresh_store)
        ((replicate 5 [0] @ replicate 24 [0]) @ [[1]])
      = Some (refresh_state\<lparr>frame_cnt := 30,
            objects := refresh_store(0 := (refresh_store 0)\<lparr>obj_model := obj_model (refresh_store 1)\<rparr>)\<rparr>)"
    using refresh_state_reached
      run_append[of centroid "SmoothObstacleAggregator refresh_store"
        "replicate 5 [0] @ replicate 24 [0]" "[[1]]"]
    by simp
  moreover have "centroid (obj_model (refresh_store 1)) = Coordinate (Fin (2/10)) (Fin 0) (Fin 0)"
    by (simp add: refresh_store_def composite_of_def cadd_def origin_def Let_def)
  ultimately have 1: "map_option (\<lambda>s. centroid (obj_model (objects s 0)))
     (run centroid (SmoothObstacleAggregator refresh_store)
        ((replicate 5 [0] @ replicate 24 [0]) @ [[1]]))
     = Some (Coordinate (Fin (2/10)) (Fin 0) (Fin 0))"
    by simp
  have 2: "map_of (tracked_models refresh_state) 0 = Some 0
   \<and> matched_in centroid refresh_state [1] 0
   \<and> finite_point (centroid (obj_model (objects refresh_state 0)))
   \<and> finite_point (centroid (obj_model (objects refresh_state 1)))
   \<and> centroid (obj_model (blend centroid 0 1 (objects refresh_state) 0))
       = Coordinate (Fin (1/10)) (Fin 0) (Fin 0)
   \<and> midpoint (centroid (obj_model (objects refresh_state 0)))
        (centroid (obj_model (objects refresh_state 1)))
       = Coordinate (Fin (1/10)) (Fin 0) (Fin 0)
   \<and> Coordinate (Fin (2/10)) (Fin 0) (Fin 0) \<noteq> Coordinate (Fin (1/10)) (Fin 0) (Fin 0)"
    by (simp add: run_defs match_of_defs matched_in_def refresh_state_def refresh_store_def
        composite_of_def sphere_at_def finite_point_def is_finite_def blend_defs)
  show ?thesis using 1 2 by (simp only: simp_thms)
qed

theorem composite_refresh_replaces_witness:
  "distinct (map fst [(0 :: int, 0 :: nat)]) \<and> (0, 0) \<in> set [(0 :: int, 0 :: nat)]
   \<and> map_of (tracked_models (refresh_state\<lparr>frame_cnt := 30\<rparr>)) 0 = Some 0
   \<and> other_entries_apart (refresh_state\<lparr>frame_cnt := 30\<rparr>) [(0, 0)] [1] 0 0 ([1] ! 0)
   \<and> other_entries_apart (refresh_state\<lparr>frame_cnt := 30\<rparr>) [(0, 0)] [2] 0 0 ([2] ! 0)
   \<and> frame_cnt (refresh_state\<lparr>frame_cnt := 30\<rparr>) mod 30 = 0
   \<and> is_composite (obj_model (objects refresh_state 0))
   \<and> is_composite (obj_model (objects refresh_state 1))
   \<and> \<not> is_composite (obj_model (objects refresh_state 2))
   \<and> adaptTracked centroid [(0, 0)] [1] (refresh_state\<lparr>frame_cnt := 30\<rparr>)
       = Some (refresh_state\<lparr>frame_cnt := 30,
            objects := refresh_store(0 := (refresh_store 0)\<lparr>obj_model := obj_model (refresh_store 1)\<rparr>)\<rparr>)
   \<and> adaptTracked centroid [(0, 0)] [2] (refresh_state\<lparr>frame_cnt := 30\<rparr>)
       = Some (refresh_state\<lparr>frame_cnt := 30, objects := blend centroid 0 2 refresh_store\<rparr>)"
  using composite_refresh_replaces[of "[(0, 0)]" 0 0 "refresh_state\<lparr>frame_cnt := 30\<rparr>" 0 "[1]" centroid]
    composite_refresh_replaces[of "[(0, 0)]" 0 0 "refresh_state\<lparr>frame_cnt := 30\<rparr>" 0 "[2]" centroid]
  by (simp add: other_entries_apart_def refresh_state_def refresh_store_def composite_of_def
      sphere_at_def is_composite_def blend_defs refresh_def adaptTracked_def adapt_step_def fun_eq_iff)

text \<open>
  Claim C9 as stated fails: \<open>refresh_state\<close> is reached after 29 frames; in the 30th the
  obstacle behind pointer 1, a composite with reference point \<open>(0.2, 0, 0)\<close>, matches
  identity 0, a composite with reference point at the origin. After the frame the
  tracked shape is the shape of the obstacle, with reference point \<open>(0.2, 0, 0)\<close>; the
  midpoint blend would have put it at \<open>(0.1, 0, 0)\<close>.
\<close>

theorem composite_refresh_counterexample:
  "run centroid (SmoothObstacleAggregator refresh_store) (replicate 5 [0] @ replicate 24 [0])
     = Some refresh_state
   \<and> frame_cnt refresh_state + 1 = 30
   \<and> map_of (snd (matchToPrevious centroid (refresh_state\<lparr>frame_cnt := 30\<rparr>) [1])) 0 = Some 0
   \<and> updateObstacles centroid refresh_state [1]
       = Some (refresh_state\<lparr>frame_cnt := 30,
            objects := refresh_store(0 := (refresh_store 0)\<lparr>obj_model := obj_model (refresh_store 1)\<rparr>)\<rparr>)
   \<and> centroid (obj_model (refresh_store 0)) = Coordinate (Fin 0) (Fin 0) (Fin 0)
   \<and> centroid (obj_model (refresh_store 1)) = Coordinate (Fin (2/10)) (Fin 0) (Fin 0)
   \<and> midpoint (centroid (obj_model (refresh_store 0))) (centroid (obj_model (refresh_store 1)))
       = Coordinate (Fin (1/10)) (Fin 0) (Fin 0)
   \<and> centroid (obj_model ((refresh_store 0)\<lparr>obj_model := obj_model (refresh_store 1)\<rparr>))
       \<noteq> midpoint (centroid (obj_model (refresh_store 0))) (centroid (obj_model (refresh_store 1)))"
  using refresh_state_reached
  by (simp add: run_defs refresh_state_def refresh_store_def composite_of_def sphere_at_def
      midpoint_def fun_eq_iff)

subsection \<open>More on maps\<close>

lemma map_of_map_erase: "map_of (map_erase k m) = (map_of m)(k := None)"
  by (induction m) (auto simp: map_erase_def fun_eq_iff)

lemma keys_map_assign: "fst ` set (map_assign k v m) = insert k (fst ` set m)"
  by (induction m) auto

lemma keys_map_erase: "fst ` set (map_erase k m) = fst ` set m - {k}"
  by (auto simp: map_erase_def)

lemma std_map_map_assign: "std_map m \<Longrightarrow> std_map (map_assign k v m)"
proof (induction m)
  case Nil
  then show ?case by (simp add: std_map_def)
next
  case (Cons e m)
  have m: "std_map m" using Cons.prems by (simp add: std_map_def)
  have lt: "\<forall>x \<in> fst ` set m. fst e < x" using Cons.prems by (auto simp: std_map_def)
  show ?case
  proof (cases "fst e = k")
    case True
    then show ?thesis using Cons.prems by (simp add: std_map_def)
  next
    case False
    show ?thesis
    proof (cases "k < fst e")
      case True
      then show ?thesis using Cons.prems False by (auto simp: std_map_def)
    next
      case ge: False
      have "\<forall>x \<in> fst ` set (map_assign k v m). fst e < x"
        using lt False ge by (auto simp: keys_map_assign)
      then show ?thesis using Cons.IH[OF m] False ge by (simp add: std_map_def image_iff)
    qed
  qed
qed

lemma std_map_map_erase: "std_map m \<Longrightarrow> std_map (map_erase k m)"
  unfolding std_map_def map_erase_def
  by (induction m) auto

lemma values_map_assign: "snd ` set (map_assign k v m) \<subseteq> insert v (snd ` set m)"
  by (induction m) auto

lemma distinct_values_map_assign:
  "distinct (map snd m) \<Longrightarrow> v \<notin> snd ` set m \<Longrightarrow> distinct (map snd (map_assign k v m))"
proof (induction m)
  case Nil
  then show ?case by simp
next
  case (Cons e m)
  have "snd e \<notin> snd ` set (map_assign k v m)"
    using Cons.prems values_map_assign[of k v m] by auto
  then show ?case using Cons by auto
qed

lemma map_at_eq: "map_of m k = map_of m' k \<Longrightarrow> map_at m k = map_at m' k"
  by (simp add: map_at_def)

subsection \<open>dropLostObjects\<close>

lemma drop_step_eq:
  "drop_step k s =
     (case map_of (frames_lost s) k of
        None \<Rightarrow> Some s
      | Some n \<Rightarrow>
          if n < 10 then Some s
          else (case map_of (model_idx_in_list s) k of
                  None \<Rightarrow>
                    Some (s\<lparr>tracked_models := map_erase k (tracked_models s),
                      frames_found := map_erase k (frames_found s),
                      frames_lost := map_erase k (frames_lost s)\<rparr>)
                | Some pos \<Rightarrow>
                    if pos \<in> fst ` set (materialized_models s)
                    then Some (s\<lparr>tracked_models := map_erase k (tracked_models s),
                      materialized_models := filter (\<lambda>n. fst n \<noteq> pos) (materialized_models s),
                      model_idx_in_list := map_erase k (model_idx_in_list s),
                      frames_found := map_erase k (frames_found s),
                      frames_lost := map_erase k (frames_lost s)\<rparr>)
                    else None))"
  by (simp add: drop_step_def list_erase_def Let_def split: option.splits)

lemma idx_handle_inj:
  assumes "distinct (map snd m)" and "map_of m k = Some pos" and "map_of m j = Some pos"
  shows "j = k"
proof -
  have "(k, pos) \<in> set m" "(j, pos) \<in> set m" using assms(2,3) by (auto dest: map_of_SomeD)
  then show ?thesis using assms(1) by (metis eq_key_imp_eq_value distinct_map inj_on_def prod.inject snd_conv)
qed

lemma distinct_snd_inj:
  "distinct (map snd m) \<Longrightarrow> (j, v) \<in> set m \<Longrightarrow> (k, v) \<in> set m \<Longrightarrow> j = k"
  by (metis distinct_map inj_on_def prod.inject snd_conv)

lemma well_formed_erase:
  assumes wf: "well_formed s"
    and l: "l = materialized_models s \<and> ix = model_idx_in_list s \<and> map_of (model_idx_in_list s) k = None
        \<or> (\<exists>pos. map_of (model_idx_in_list s) k = Some pos
              \<and> l = filter (\<lambda>n. fst n \<noteq> pos) (materialized_models s)
              \<and> ix = map_erase k (model_idx_in_list s))"
  shows "well_formed (s\<lparr>tracked_models := map_erase k (tracked_models s),
      materialized_models := l, model_idx_in_list := ix,
      frames_found := map_erase k (frames_found s),
      frames_lost := map_erase k (frames_lost s)\<rparr>)"
proof -
  have A: "std_map (tracked_models s)" and B: "ids_below_counter s"
    and C: "set (map fst (frames_found s)) \<subseteq> set (map fst (tracked_models s))"
    and D: "set (map snd (model_idx_in_list s)) \<subseteq> set (map fst (materialized_models s))"
    and E: "distinct (map snd (model_idx_in_list s))"
    and F: "\<forall>n \<in> set (materialized_models s). fst n < list_nodes s"
    and J: "\<forall>e \<in> set (model_idx_in_list s). map_at (frames_found s) (fst e) = 0"
    using wf by (simp_all add: well_formed_def)
  have ix_sub: "set ix \<subseteq> set (model_idx_in_list s)" using l by (auto simp: map_erase_def)
  have l_sub: "set l \<subseteq> set (materialized_models s)" using l by auto
  have A': "std_map (map_erase k (tracked_models s))" using A by (rule std_map_map_erase)
  have B': "\<forall>e \<in> set (map_erase k (tracked_models s)). fst e < next_model_id s"
    using B by (auto simp: ids_below_counter_def map_erase_def)
  have C': "set (map fst (map_erase k (frames_found s))) \<subseteq> set (map fst (map_erase k (tracked_models s)))"
    using C by (auto simp: map_erase_def)
  have D': "set (map snd ix) \<subseteq> set (map fst l)"
  proof
    fix x assume "x \<in> set (map snd ix)"
    then obtain j where j: "(j, x) \<in> set ix" by auto
    then have jm: "(j, x) \<in> set (model_idx_in_list s)" using ix_sub by auto
    then have xh: "x \<in> set (map fst (materialized_models s))" using D by force
    from l show "x \<in> set (map fst l)"
    proof
      assume "l = materialized_models s \<and> ix = model_idx_in_list s \<and>
          map_of (model_idx_in_list s) k = None"
      then show ?thesis using xh by simp
    next
      assume "\<exists>pos. map_of (model_idx_in_list s) k = Some pos
              \<and> l = filter (\<lambda>n. fst n \<noteq> pos) (materialized_models s)
              \<and> ix = map_erase k (model_idx_in_list s)"
      then obtain pos where pos: "map_of (model_idx_in_list s) k = Some pos"
        and lf: "l = filter (\<lambda>n. fst n \<noteq> pos) (materialized_models s)"
        and ixe: "ix = map_erase k (model_idx_in_list s)" by blast
      have "j \<noteq> k" using j ixe by (auto simp: map_erase_def)
      moreover have "(k, pos) \<in> set (model_idx_in_list s)" using pos by (rule map_of_SomeD)
      ultimately have "x \<noteq> pos" using distinct_snd_inj[OF E jm] by blast
      then show ?thesis using xh lf by auto
    qed
  qed
  have E': "distinct (map snd ix)"
    using l E by (auto simp: map_erase_def distinct_map_filter)
  have F': "\<forall>n \<in> set l. fst n < list_nodes s" using F l_sub by auto
  have J': "\<forall>e \<in> set ix. map_at (map_erase k (frames_found s)) (fst e) = 0"
  proof
    fix e assume e: "e \<in> set ix"
    then have 0: "map_at (frames_found s) (fst e) = 0" using J ix_sub by auto
    show "map_at (map_erase k (frames_found s)) (fst e) = 0"
      using 0 by (simp add: map_at_def map_of_map_erase)
  qed
  show ?thesis
    using A' B' C' D' E' F' J' by (simp add: well_formed_def ids_below_counter_def)
qed

lemma drop_step_well_formed:
  assumes "well_formed s"
  shows "\<exists>s'. drop_step k s = Some s' \<and> well_formed s'"
proof (cases "map_of (frames_lost s) k")
  case None
  then show ?thesis using assms by (simp add: drop_step_eq)
next
  case (Some n)
  show ?thesis
  proof (cases "n < 10")
    case True
    then show ?thesis using assms Some by (simp add: drop_step_eq)
  next
    case False
    show ?thesis
    proof (cases "map_of (model_idx_in_list s) k")
      case None
      have "well_formed (s\<lparr>tracked_models := map_erase k (tracked_models s),
          materialized_models := materialized_models s, model_idx_in_list := model_idx_in_list s,
          frames_found := map_erase k (frames_found s),
          frames_lost := map_erase k (frames_lost s)\<rparr>)"
        using assms None by (intro well_formed_erase) simp_all
      then show ?thesis using Some False None by (simp add: drop_step_eq)
    next
      case pos: (Some pos)
      have "(k, pos) \<in> set (model_idx_in_list s)" using pos by (rule map_of_SomeD)
      then have "pos \<in> snd ` set (model_idx_in_list s)" by force
      then have h: "pos \<in> fst ` set (materialized_models s)"
        using assms by (auto simp: well_formed_def)
      have "well_formed (s\<lparr>tracked_models := map_erase k (tracked_models s),
          materialized_models := filter (\<lambda>n. fst n \<noteq> pos) (materialized_models s),
          model_idx_in_list := map_erase k (model_idx_in_list s),
          frames_found := map_erase k (frames_found s),
          frames_lost := map_erase k (frames_lost s)\<rparr>)"
        using assms pos by (intro well_formed_erase) simp_all
      then show ?thesis using Some False pos h by (simp add: drop_step_eq)
    qed
  qed
qed

lemma fold_drop_well_formed:
  "well_formed s \<Longrightarrow> \<exists>s'. fold_opt drop_step ks s = Some s' \<and> well_formed s'"
proof (induction ks arbitrary: s)
  case Nil
  then show ?case by simp
next
  case (Cons k ks)
  obtain s1 where "drop_step k s = Some s1" "well_formed s1"
    using drop_step_well_formed[OF Cons.prems] by blast
  then show ?case using Cons.IH[of s1] by simp
qed

lemma same_entries_refl: "same_entries s s k"
  by (simp add: same_entries_def)

lemma same_entries_trans: "same_entries s2 s1 k \<Longrightarrow> same_entries s1 s k \<Longrightarrow> same_entries s2 s k"
  by (simp add: same_entries_def)

lemma drop_step_below: 
  "map_of (frames_lost s) k = None \<or> (\<exists>n. map_of (frames_lost s) k = Some n \<and> n < 10) \<Longrightarrow>
     drop_step k s = Some s"
  by (auto simp: drop_step_eq)

lemma drop_step_other:
  assumes wf: "well_formed s" and st: "drop_step j s = Some s'" and ne: "j \<noteq> k"
  shows "same_entries s' s k"
proof (cases "s' = s")
  case True
  then show ?thesis by (simp add: same_entries_refl)
next
  case False
  then obtain n where n: "map_of (frames_lost s) j = Some n" "\<not> n < 10"
    using st by (auto simp: drop_step_eq split: option.splits if_splits)
  have E: "distinct (map snd (model_idx_in_list s))" using wf by (simp add: well_formed_def)
  show ?thesis
  proof (cases "map_of (model_idx_in_list s) j")
    case None
    then have "s' = s\<lparr>tracked_models := map_erase j (tracked_models s),
                      frames_found := map_erase j (frames_found s),
                      frames_lost := map_erase j (frames_lost s)\<rparr>"
      using st n by (simp add: drop_step_eq)
    then show ?thesis using ne
      by (simp add: same_entries_def nodes_of_def map_of_map_erase split: option.splits)
  next
    case (Some pos)
    then have s': "s' = s\<lparr>tracked_models := map_erase j (tracked_models s),
                      materialized_models := filter (\<lambda>n. fst n \<noteq> pos) (materialized_models s),
                      model_idx_in_list := map_erase j (model_idx_in_list s),
                      frames_found := map_erase j (frames_found s),
                      frames_lost := map_erase j (frames_lost s)\<rparr>"
      using st n by (simp add: drop_step_eq split: if_splits)
    have "nodes_of s' k = nodes_of s k"
    proof (cases "map_of (model_idx_in_list s) k")
      case None
      then show ?thesis using s' ne by (simp add: nodes_of_def map_of_map_erase)
    next
      case q: (Some q)
      have "q \<noteq> pos" using idx_handle_inj[OF E Some, of k] q ne by auto
      then have "filter (\<lambda>n. fst n = q) (filter (\<lambda>n. fst n \<noteq> pos) (materialized_models s)) =
          filter (\<lambda>n. fst n = q) (materialized_models s)"
        by (auto intro: filter_cong)
      then show ?thesis using s' ne q by (simp add: nodes_of_def map_of_map_erase)
    qed
    then show ?thesis using s' ne by (simp add: same_entries_def map_of_map_erase)
  qed
qed

lemma drop_step_self:
  assumes st: "drop_step k s = Some s'" and n: "map_of (frames_lost s) k = Some n" and ge: "10 \<le> n"
  shows "purged s' k \<and>
     (\<forall>pos. map_of (model_idx_in_list s) k = Some pos \<longrightarrow> pos \<notin> fst ` set (materialized_models s'))"
  using st n ge
  by (cases "map_of (model_idx_in_list s) k")
    (auto simp: drop_step_eq purged_def map_of_map_erase split: if_splits)

lemma drop_step_purged:
  assumes st: "drop_step j s = Some s'" and p: "purged s k"
  shows "purged s' k"
  using st p
  by (auto simp: drop_step_eq purged_def map_of_map_erase split: option.splits if_splits)

lemma drop_step_handles:
  assumes st: "drop_step j s = Some s'"
  shows "fst ` set (materialized_models s') \<subseteq> fst ` set (materialized_models s)"
  using st by (auto simp: drop_step_eq split: option.splits if_splits)

lemma fold_drop_purged:
  "fold_opt drop_step ks s = Some s' \<Longrightarrow> purged s k \<Longrightarrow> purged s' k"
proof (induction ks arbitrary: s)
  case Nil
  then show ?case by simp
next
  case (Cons j ks)
  obtain s1 where s1: "drop_step j s = Some s1" and rest: "fold_opt drop_step ks s1 = Some s'"
    using Cons.prems(1) by (auto split: option.splits)
  have "purged s1 k" using drop_step_purged[OF s1 Cons.prems(2)] .
  then show ?case using Cons.IH[OF rest] by blast
qed

lemma fold_drop_handles:
  "fold_opt drop_step ks s = Some s' \<Longrightarrow>
     fst ` set (materialized_models s') \<subseteq> fst ` set (materialized_models s)"
proof (induction ks arbitrary: s)
  case Nil
  then show ?case by simp
next
  case (Cons j ks)
  obtain s1 where s1: "drop_step j s = Some s1" and rest: "fold_opt drop_step ks s1 = Some s'"
    using Cons.prems(1) by (auto split: option.splits)
  show ?case using drop_step_handles[OF s1] Cons.IH[OF rest] by blast
qed

lemma fold_drop_kept:
  "well_formed s \<Longrightarrow> fold_opt drop_step ks s = Some s' \<Longrightarrow>
     map_of (frames_lost s) k = None \<or> (\<exists>n. map_of (frames_lost s) k = Some n \<and> n < 10) \<Longrightarrow>
     same_entries s' s k"
proof (induction ks arbitrary: s)
  case Nil
  then show ?case by (simp add: same_entries_refl)
next
  case (Cons j ks)
  obtain s1 where s1: "drop_step j s = Some s1" and rest: "fold_opt drop_step ks s1 = Some s'"
    using Cons.prems(2) by (auto split: option.splits)
  have wf1: "well_formed s1" using drop_step_well_formed[OF Cons.prems(1), of j] s1 by auto
  have e1: "same_entries s1 s k"
  proof (cases "j = k")
    case True
    then have "s1 = s" using drop_step_below[OF Cons.prems(3)] s1 by simp
    then show ?thesis by (simp add: same_entries_refl)
  next
    case False
    then show ?thesis using drop_step_other[OF Cons.prems(1) s1] by simp
  qed
  then have "map_of (frames_lost s1) k = None \<or> (\<exists>n. map_of (frames_lost s1) k = Some n \<and> n < 10)"
    using Cons.prems(3) by (simp add: same_entries_def)
  then have "same_entries s' s1 k" using Cons.IH[OF wf1 rest] by simp
  then show ?case using e1 by (rule same_entries_trans)
qed

lemma fold_drop_gone:
  "well_formed s \<Longrightarrow> fold_opt drop_step ks s = Some s' \<Longrightarrow> k \<in> set ks \<Longrightarrow>
     map_of (frames_lost s) k = Some n \<Longrightarrow> 10 \<le> n \<Longrightarrow>
     purged s' k \<and>
     (\<forall>pos. map_of (model_idx_in_list s) k = Some pos \<longrightarrow> pos \<notin> fst ` set (materialized_models s'))"
proof (induction ks arbitrary: s)
  case Nil
  then show ?case by simp
next
  case (Cons j ks)
  obtain s1 where s1: "drop_step j s = Some s1" and rest: "fold_opt drop_step ks s1 = Some s'"
    using Cons.prems(2) by (auto split: option.splits)
  have wf1: "well_formed s1" using drop_step_well_formed[OF Cons.prems(1), of j] s1 by auto
  show ?case
  proof (cases "j = k")
    case True
    have p1: "purged s1 k" and h1: "\<forall>pos. map_of (model_idx_in_list s) k = Some pos \<longrightarrow>
        pos \<notin> fst ` set (materialized_models s1)"
      using drop_step_self[OF _ Cons.prems(4,5), of s1] s1 True by simp_all
    have "purged s' k" using fold_drop_purged[OF rest p1] .
    moreover have "\<forall>pos. map_of (model_idx_in_list s) k = Some pos \<longrightarrow>
        pos \<notin> fst ` set (materialized_models s')"
      using fold_drop_handles[OF rest] h1 by blast
    ultimately show ?thesis by simp
  next
    case False
    then have e1: "same_entries s1 s k" using drop_step_other[OF Cons.prems(1) s1] by simp
    have "k \<in> set ks" using Cons.prems(3) False by simp
    moreover have "map_of (frames_lost s1) k = Some n" using e1 Cons.prems(4)
      by (simp add: same_entries_def)
    ultimately have "purged s' k \<and>
        (\<forall>pos. map_of (model_idx_in_list s1) k = Some pos \<longrightarrow>
           pos \<notin> fst ` set (materialized_models s'))"
      using Cons.IH[OF wf1 rest] Cons.prems(5) by simp
    then show ?thesis using e1 by (simp add: same_entries_def)
  qed
qed

lemma dropLostObjects_at:
  assumes wf: "well_formed s"
  shows "\<exists>s'. dropLostObjects s = Some s' \<and> well_formed s' \<and>
     (\<forall>k. (\<forall>n. map_of (frames_lost s) k = Some n \<longrightarrow> n < 10) \<longrightarrow> same_entries s' s k) \<and>
     (\<forall>k n. map_of (frames_lost s) k = Some n \<and> 10 \<le> n \<longrightarrow>
        purged s' k \<and>
        (\<forall>pos. map_of (model_idx_in_list s) k = Some pos \<longrightarrow>
           pos \<notin> fst ` set (materialized_models s')))"
proof -
  obtain s' where s': "fold_opt drop_step (map fst (frames_lost s)) s = Some s'"
    and wf': "well_formed s'"
    using fold_drop_well_formed[OF wf] by blast
  have kept: "same_entries s' s k" if "\<forall>n. map_of (frames_lost s) k = Some n \<longrightarrow> n < 10" for k
  proof -
    have "map_of (frames_lost s) k = None \<or> (\<exists>n. map_of (frames_lost s) k = Some n \<and> n < 10)"
      using that by (cases "map_of (frames_lost s) k") auto
    then show ?thesis using fold_drop_kept[OF wf s'] by blast
  qed
  have gone: "purged s' k \<and>
        (\<forall>pos. map_of (model_idx_in_list s) k = Some pos \<longrightarrow>
           pos \<notin> fst ` set (materialized_models s'))"
    if "map_of (frames_lost s) k = Some n" "10 \<le> n" for k n
  proof -
    have "k \<in> set (map fst (frames_lost s))" using that(1) by (force dest: map_of_SomeD)
    then show ?thesis using fold_drop_gone[OF wf s' _ that] by blast
  qed
  have "dropLostObjects s = Some s'" using s' by (simp add: dropLostObjects_def)
  moreover have "\<forall>k. (\<forall>n. map_of (frames_lost s) k = Some n \<longrightarrow> n < 10) \<longrightarrow> same_entries s' s k"
    using kept by blast
  moreover have "\<forall>k n. map_of (frames_lost s) k = Some n \<and> 10 \<le> n \<longrightarrow>
        purged s' k \<and>
        (\<forall>pos. map_of (model_idx_in_list s) k = Some pos \<longrightarrow>
           pos \<notin> fst ` set (materialized_models s'))"
    using gone by blast
  ultimately have "dropLostObjects s = Some s' \<and> well_formed s' \<and>
     (\<forall>k. (\<forall>n. map_of (frames_lost s) k = Some n \<longrightarrow> n < 10) \<longrightarrow> same_entries s' s k) \<and>
     (\<forall>k n. map_of (frames_lost s) k = Some n \<and> 10 \<le> n \<longrightarrow>
        purged s' k \<and>
        (\<forall>pos. map_of (model_idx_in_list s) k = Some pos \<longrightarrow>
           pos \<notin> fst ` set (materialized_models s')))"
    using wf' by blast
  then show ?thesis by (rule exI[of _ s'])
qed

subsection \<open>materializeFoundObjects\<close>

lemma materialize_step_below:
  "map_of (frames_found s) k = None \<or> (\<exists>n. map_of (frames_found s) k = Some n \<and> n < 5) \<Longrightarrow>
     materialize_step k s = Some s"
  by (auto simp: materialize_step_def)

lemma materialize_step_at:
  assumes wf: "well_formed s" and n: "map_of (frames_found s) k = Some n" and ge: "5 \<le> n"
  shows "\<exists>p. map_of (tracked_models s) k = Some p \<and>
     materialize_step k s =
       Some (s\<lparr>materialized_models := materialized_models s @ [(list_nodes s, p)],
         model_idx_in_list := map_assign k (list_nodes s) (model_idx_in_list s),
         frames_found := map_erase k (frames_found s),
         list_nodes := Suc (list_nodes s)\<rparr>)"
proof -
  have "k \<in> fst ` set (frames_found s)" using n by (force dest: map_of_SomeD)
  then have "k \<in> fst ` set (tracked_models s)" using wf by (auto simp: well_formed_def)
  then obtain p where p: "map_of (tracked_models s) k = Some p"
    by (cases "map_of (tracked_models s) k") (auto simp: map_of_eq_None_iff)
  then show ?thesis using n ge by (simp add: materialize_step_def)
qed

lemma well_formed_promote:
  assumes wf: "well_formed s"
  shows "well_formed (s\<lparr>materialized_models := materialized_models s @ [(list_nodes s, p)],
         model_idx_in_list := map_assign k (list_nodes s) (model_idx_in_list s),
         frames_found := map_erase k (frames_found s),
         list_nodes := Suc (list_nodes s)\<rparr>)"
proof -
  have A: "std_map (tracked_models s)" and B: "ids_below_counter s"
    and C: "set (map fst (frames_found s)) \<subseteq> set (map fst (tracked_models s))"
    and D: "set (map snd (model_idx_in_list s)) \<subseteq> set (map fst (materialized_models s))"
    and E: "distinct (map snd (model_idx_in_list s))"
    and F: "\<forall>n \<in> set (materialized_models s). fst n < list_nodes s"
    and J: "\<forall>e \<in> set (model_idx_in_list s). map_at (frames_found s) (fst e) = 0"
    using wf by (simp_all add: well_formed_def)
  have fresh: "list_nodes s \<notin> snd ` set (model_idx_in_list s)"
  proof
    assume "list_nodes s \<in> snd ` set (model_idx_in_list s)"
    then have "list_nodes s \<in> fst ` set (materialized_models s)" using D by auto
    then show False using F by auto
  qed
  have C': "set (map fst (map_erase k (frames_found s))) \<subseteq> set (map fst (tracked_models s))"
    using C by (auto simp: map_erase_def)
  have D': "set (map snd (map_assign k (list_nodes s) (model_idx_in_list s)))
      \<subseteq> set (map fst (materialized_models s @ [(list_nodes s, p)]))"
    using values_map_assign[of k "list_nodes s" "model_idx_in_list s"] D by auto
  have E': "distinct (map snd (map_assign k (list_nodes s) (model_idx_in_list s)))"
    using E fresh by (rule distinct_values_map_assign)
  have F': "\<forall>n \<in> set (materialized_models s @ [(list_nodes s, p)]). fst n < Suc (list_nodes s)"
    using F by auto
  have J': "\<forall>e \<in> set (map_assign k (list_nodes s) (model_idx_in_list s)).
      map_at (map_erase k (frames_found s)) (fst e) = 0"
  proof
    fix e assume "e \<in> set (map_assign k (list_nodes s) (model_idx_in_list s))"
    then have "fst e \<in> insert k (fst ` set (model_idx_in_list s))"
      using keys_map_assign[of k "list_nodes s" "model_idx_in_list s"] by blast
    then consider "fst e = k" | "fst e \<noteq> k" "fst e \<in> fst ` set (model_idx_in_list s)" by blast
    then show "map_at (map_erase k (frames_found s)) (fst e) = 0"
    proof cases
      case 1
      then show ?thesis by (simp add: map_at_def map_of_map_erase)
    next
      case 2
      then have "map_at (frames_found s) (fst e) = 0" using J by auto
      then show ?thesis using 2 by (simp add: map_at_def map_of_map_erase)
    qed
  qed
  show ?thesis
    using A B C' D' E' F' J' by (simp add: well_formed_def ids_below_counter_def)
qed

lemma materialize_step_well_formed:
  assumes "well_formed s"
  shows "\<exists>s'. materialize_step k s = Some s' \<and> well_formed s'"
proof (cases "map_of (frames_found s) k = None \<or> (\<exists>n. map_of (frames_found s) k = Some n \<and> n < 5)")
  case True
  then show ?thesis using assms materialize_step_below by blast
next
  case False
  then obtain n where n: "map_of (frames_found s) k = Some n" "5 \<le> n"
    by (cases "map_of (frames_found s) k") auto
  then show ?thesis
    using materialize_step_at[OF assms n] well_formed_promote[OF assms, where k = k] by auto
qed

lemma fold_materialize_well_formed:
  "well_formed s \<Longrightarrow> \<exists>s'. fold_opt materialize_step ks s = Some s' \<and> well_formed s'"
proof (induction ks arbitrary: s)
  case Nil
  then show ?case by simp
next
  case (Cons k ks)
  obtain s1 where "materialize_step k s = Some s1" "well_formed s1"
    using materialize_step_well_formed[OF Cons.prems] by blast
  then show ?case using Cons.IH[of s1] by simp
qed

lemma materialize_step_handles:
  "materialize_step j s = Some s' \<Longrightarrow>
     fst ` set (materialized_models s) \<subseteq> fst ` set (materialized_models s')"
  by (auto simp: materialize_step_def split: option.splits if_splits)

lemma idx_handle_below:
  assumes wf: "well_formed s" and "map_of (model_idx_in_list s) k = Some pos"
  shows "pos < list_nodes s"
proof -
  have "(k, pos) \<in> set (model_idx_in_list s)" using assms(2) by (rule map_of_SomeD)
  then have "pos \<in> snd ` set (model_idx_in_list s)" by force
  then have "pos \<in> fst ` set (materialized_models s)" using wf by (auto simp: well_formed_def)
  then show ?thesis using wf by (auto simp: well_formed_def)
qed

lemma materialize_step_other:
  assumes wf: "well_formed s" and st: "materialize_step j s = Some s'" and ne: "j \<noteq> k"
  shows "same_entries s' s k"
proof (cases "map_of (frames_found s) j = None \<or> (\<exists>n. map_of (frames_found s) j = Some n \<and> n < 5)")
  case True
  then have "s' = s" using materialize_step_below[OF True] st by simp
  then show ?thesis by (simp add: same_entries_refl)
next
  case False
  then obtain n where n: "map_of (frames_found s) j = Some n" "5 \<le> n"
    by (cases "map_of (frames_found s) j") auto
  obtain p where s': "s' = s\<lparr>materialized_models := materialized_models s @ [(list_nodes s, p)],
         model_idx_in_list := map_assign j (list_nodes s) (model_idx_in_list s),
         frames_found := map_erase j (frames_found s),
         list_nodes := Suc (list_nodes s)\<rparr>"
    using materialize_step_at[OF wf n] st by auto
  have "nodes_of s' k = nodes_of s k"
  proof (cases "map_of (model_idx_in_list s) k")
    case None
    then show ?thesis using s' ne by (simp add: nodes_of_def map_of_map_assign)
  next
    case (Some pos)
    then have "pos \<noteq> list_nodes s" using idx_handle_below[OF wf Some] by simp
    then show ?thesis using s' ne Some by (simp add: nodes_of_def map_of_map_assign)
  qed
  then show ?thesis using s' ne by (simp add: same_entries_def map_of_map_assign map_of_map_erase)
qed

lemma materialize_step_self:
  assumes wf: "well_formed s" and st: "materialize_step k s = Some s'"
    and n: "map_of (frames_found s) k = Some n" and ge: "5 \<le> n"
  shows "promoted s s' k"
proof -
  obtain p where p: "map_of (tracked_models s) k = Some p"
    and s': "s' = s\<lparr>materialized_models := materialized_models s @ [(list_nodes s, p)],
         model_idx_in_list := map_assign k (list_nodes s) (model_idx_in_list s),
         frames_found := map_erase k (frames_found s),
         list_nodes := Suc (list_nodes s)\<rparr>"
    using materialize_step_at[OF wf n ge] st by auto
  have new: "list_nodes s \<notin> fst ` set (materialized_models s)"
    using wf by (auto simp: well_formed_def)
  then have "filter (\<lambda>n. fst n = list_nodes s) (materialized_models s) = []"
    by (force simp: filter_empty_conv)
  then have "nodes_of s' k = [(list_nodes s, p)]"
    using s' by (simp add: nodes_of_def map_of_map_assign)
  then have "map_of (tracked_models s) k = Some p \<and> map_of (tracked_models s') k = Some p
        \<and> map_of (model_idx_in_list s') k = Some (list_nodes s) \<and> nodes_of s' k = [(list_nodes s, p)]
        \<and> list_nodes s \<notin> fst ` set (materialized_models s)
        \<and> map_of (frames_found s') k = None
        \<and> map_of (frames_lost s') k = map_of (frames_lost s) k"
    using p s' new by (simp add: map_of_map_assign map_of_map_erase)
  then show ?thesis unfolding promoted_def by blast
qed

lemma fold_materialize_kept:
  "well_formed s \<Longrightarrow> fold_opt materialize_step ks s = Some s' \<Longrightarrow>
     map_of (frames_found s) k = None \<or> (\<exists>n. map_of (frames_found s) k = Some n \<and> n < 5) \<Longrightarrow>
     same_entries s' s k"
proof (induction ks arbitrary: s)
  case Nil
  then show ?case by (simp add: same_entries_refl)
next
  case (Cons j ks)
  obtain s1 where s1: "materialize_step j s = Some s1"
    and rest: "fold_opt materialize_step ks s1 = Some s'"
    using Cons.prems(2) by (auto split: option.splits)
  have wf1: "well_formed s1" using materialize_step_well_formed[OF Cons.prems(1), of j] s1 by auto
  have e1: "same_entries s1 s k"
  proof (cases "j = k")
    case True
    then have "s1 = s" using materialize_step_below[OF Cons.prems(3)] s1 by simp
    then show ?thesis by (simp add: same_entries_refl)
  next
    case False
    then show ?thesis using materialize_step_other[OF Cons.prems(1) s1] by simp
  qed
  then have "map_of (frames_found s1) k = None \<or> (\<exists>n. map_of (frames_found s1) k = Some n \<and> n < 5)"
    using Cons.prems(3) by (simp add: same_entries_def)
  then have "same_entries s' s1 k" using Cons.IH[OF wf1 rest] by simp
  then show ?case using e1 by (rule same_entries_trans)
qed

lemma promoted_then_same:
  "promoted s s1 k \<Longrightarrow> same_entries s' s1 k \<Longrightarrow> promoted s s' k"
  unfolding promoted_def same_entries_def by metis

lemma same_then_promoted:
  "same_entries s1 s k \<Longrightarrow> promoted s1 s' k \<Longrightarrow>
     fst ` set (materialized_models s) \<subseteq> fst ` set (materialized_models s1) \<Longrightarrow> promoted s s' k"
  unfolding promoted_def same_entries_def by (metis subsetD)

lemma fold_materialize_promoted:
  "well_formed s \<Longrightarrow> fold_opt materialize_step ks s = Some s' \<Longrightarrow> k \<in> set ks \<Longrightarrow>
     map_of (frames_found s) k = Some n \<Longrightarrow> 5 \<le> n \<Longrightarrow> promoted s s' k"
proof (induction ks arbitrary: s)
  case Nil
  then show ?case by simp
next
  case (Cons j ks)
  obtain s1 where s1: "materialize_step j s = Some s1"
    and rest: "fold_opt materialize_step ks s1 = Some s'"
    using Cons.prems(2) by (auto split: option.splits)
  have wf1: "well_formed s1" using materialize_step_well_formed[OF Cons.prems(1), of j] s1 by auto
  show ?case
  proof (cases "j = k")
    case True
    have p1: "promoted s s1 k"
      using materialize_step_self[OF Cons.prems(1) _ Cons.prems(4,5)] s1 True by simp
    then have "map_of (frames_found s1) k = None" by (auto simp: promoted_def)
    then have "same_entries s' s1 k" using fold_materialize_kept[OF wf1 rest] by blast
    then show ?thesis using p1 promoted_then_same by blast
  next
    case False
    then have e1: "same_entries s1 s k" using materialize_step_other[OF Cons.prems(1) s1] by simp
    have "k \<in> set ks" using Cons.prems(3) False by simp
    moreover have "map_of (frames_found s1) k = Some n" using e1 Cons.prems(4)
      by (simp add: same_entries_def)
    ultimately have "promoted s1 s' k" using Cons.IH[OF wf1 rest] Cons.prems(5) by simp
    then show ?thesis using e1 materialize_step_handles[OF s1] same_then_promoted by blast
  qed
qed

lemma materializeFoundObjects_at:
  assumes wf: "well_formed s"
  shows "\<exists>s'. materializeFoundObjects s = Some s' \<and> well_formed s' \<and>
     (\<forall>k. (\<forall>n. map_of (frames_found s) k = Some n \<longrightarrow> n < 5) \<longrightarrow> same_entries s' s k) \<and>
     (\<forall>k n. map_of (frames_found s) k = Some n \<and> 5 \<le> n \<longrightarrow> promoted s s' k)"
proof -
  obtain s' where s': "fold_opt materialize_step (map fst (frames_found s)) s = Some s'"
    and wf': "well_formed s'"
    using fold_materialize_well_formed[OF wf] by blast
  have kept: "same_entries s' s k" if "\<forall>n. map_of (frames_found s) k = Some n \<longrightarrow> n < 5" for k
  proof -
    have "map_of (frames_found s) k = None \<or> (\<exists>n. map_of (frames_found s) k = Some n \<and> n < 5)"
      using that by (cases "map_of (frames_found s) k") auto
    then show ?thesis using fold_materialize_kept[OF wf s'] by blast
  qed
  have prom: "promoted s s' k" if "map_of (frames_found s) k = Some n" "5 \<le> n" for k n
  proof -
    have "k \<in> set (map fst (frames_found s))" using that(1) by (force dest: map_of_SomeD)
    then show ?thesis using fold_materialize_promoted[OF wf s' _ that] by blast
  qed
  have "materializeFoundObjects s = Some s'" using s' by (simp add: materializeFoundObjects_def)
  moreover have "\<forall>k. (\<forall>n. map_of (frames_found s) k = Some n \<longrightarrow> n < 5) \<longrightarrow> same_entries s' s k"
    using kept by blast
  moreover have "\<forall>k n. map_of (frames_found s) k = Some n \<and> 5 \<le> n \<longrightarrow> promoted s s' k"
    using prom by blast
  ultimately have "materializeFoundObjects s = Some s' \<and> well_formed s' \<and>
     (\<forall>k. (\<forall>n. map_of (frames_found s) k = Some n \<longrightarrow> n < 5) \<longrightarrow> same_entries s' s k) \<and>
     (\<forall>k n. map_of (frames_found s) k = Some n \<and> 5 \<le> n \<longrightarrow> promoted s s' k)"
    using wf' by blast
  then show ?thesis by (rule exI[of _ s'])
qed

subsection \<open>The invariant along a frame\<close>

lemma keys_fold_assign:
  "fst ` set (fold (\<lambda>e. map_assign (fst e) (f e)) ps m) = fst ` set m \<union> fst ` set ps"
  by (induction ps arbitrary: m) (auto simp: keys_map_assign)

lemma std_map_fold_assign:
  "std_map m \<Longrightarrow> std_map (fold (\<lambda>e. map_assign (fst e) (f e)) ps m)"
  by (induction ps arbitrary: m) (auto simp: std_map_map_assign)

lemma std_map_Nil: "std_map []"
  by (simp add: std_map_def)

lemma std_map_correspondence: "std_map (snd (matchToPrevious cp s obs))"
  by (simp add: matchToPrevious_eq std_map_fold_assign std_map_Nil)

lemma match_of_frame_cnt [simp]: "match_of cp (s\<lparr>frame_cnt := c\<rparr>) a = match_of cp s a"
  by (simp add: match_of_def Let_def)

lemma unmatched_before_total:
  assumes "t < length obs" and "match_of cp s (obs ! t) = None"
  shows "unmatched_before cp s obs t < length (filter (\<lambda>a. match_of cp s a = None) obs)"
  using unmatched_before_less[OF assms(1) _ assms(2)]
  by (simp add: unmatched_before_def)

lemma new_in_frame_key:
  assumes "e \<in> set (filter (\<lambda>e. map_of (tracked_models s) (fst e) = None)
                      (assigned cp s (next_model_id s) 0 obs))"
  shows "fst e < next_model_id s + int (length (filter (\<lambda>a. match_of cp s a = None) obs))"
proof -
  have mem: "(fst e, snd e) \<in> set (assigned cp s (next_model_id s) 0 obs)"
    and un: "map_of (tracked_models s) (fst e) = None" using assms by auto
  have c: "snd e < length obs \<and> fst e =
      (case match_of cp s (obs ! snd e) of Some m \<Rightarrow> m | None \<Rightarrow> fresh_id cp s obs (snd e))"
    using mem assigned_mem_iff[of "fst e" "snd e" cp s obs] by simp
  show ?thesis
  proof (cases "match_of cp s (obs ! snd e)")
    case None
    then show ?thesis using c unmatched_before_total[where t = "snd e" and obs = obs and cp = cp and s = s]
      by (simp add: fresh_id_def)
  next
    case (Some m)
    then have "fst e \<in> fst ` set (tracked_models s)" using c match_of_tracked[OF Some] by simp
    then show ?thesis using un by (simp add: map_of_eq_None_iff)
  qed
qed

lemma map_of_fold_assign_const:
  "map_of (fold (\<lambda>e. map_assign (fst e) c) ps m) k =
     (if k \<in> fst ` set ps then Some c else map_of m k)"
  by (induction ps arbitrary: m) (auto simp: map_of_map_assign)

lemma matchToPrevious_well_formed:
  assumes wf: "well_formed s"
  shows "well_formed (fst (matchToPrevious cp s obs))"
proof -
  let ?nif = "filter (\<lambda>e. map_of (tracked_models s) (fst e) = None)
                (assigned cp s (next_model_id s) 0 obs)"
  let ?n = "next_model_id s + int (length (filter (\<lambda>a. match_of cp s a = None) obs))"
  let ?s1 = "fst (matchToPrevious cp s obs)"
  have A: "std_map (tracked_models s)" and B: "ids_below_counter s"
    and C: "set (map fst (frames_found s)) \<subseteq> set (map fst (tracked_models s))"
    and D: "set (map snd (model_idx_in_list s)) \<subseteq> set (map fst (materialized_models s))"
    and E: "distinct (map snd (model_idx_in_list s))"
    and F: "\<forall>n \<in> set (materialized_models s). fst n < list_nodes s"
    and J: "\<forall>e \<in> set (model_idx_in_list s). map_at (frames_found s) (fst e) = 0"
    using wf by (simp_all add: well_formed_def)
  have tr: "tracked_models ?s1 = fold (\<lambda>e. map_assign (fst e) (obs ! snd e)) ?nif (tracked_models s)"
    and fo: "frames_found ?s1 = fold (\<lambda>e. map_assign (fst e) 0) ?nif (frames_found s)"
    and nx: "next_model_id ?s1 = ?n"
    and same: "materialized_models ?s1 = materialized_models s"
      "model_idx_in_list ?s1 = model_idx_in_list s" "list_nodes ?s1 = list_nodes s"
    by (simp_all add: matchToPrevious_eq fold_insert_new_tracked fold_insert_new_found
        fold_insert_new_frame)
  have A': "std_map (tracked_models ?s1)" unfolding tr using A by (rule std_map_fold_assign)
  have keys: "fst ` set (tracked_models ?s1) = fst ` set (tracked_models s) \<union> fst ` set ?nif"
    unfolding tr by (rule keys_fold_assign)
  have B': "ids_below_counter ?s1"
    unfolding ids_below_counter_def nx
  proof
    fix e assume "e \<in> set (tracked_models ?s1)"
    then have "fst e \<in> fst ` set (tracked_models s) \<union> fst ` set ?nif" using keys by blast
    then show "fst e < ?n"
    proof
      assume "fst e \<in> fst ` set (tracked_models s)"
      then have "fst e < next_model_id s" using B by (auto simp: ids_below_counter_def)
      then show ?thesis by simp
    next
      assume "fst e \<in> fst ` set ?nif"
      then obtain x where "x \<in> set ?nif" "fst x = fst e" by auto
      then show ?thesis using new_in_frame_key[where e = x and s = s and cp = cp and obs = obs] by simp
    qed
  qed
  have "fst ` set (frames_found ?s1) = fst ` set (frames_found s) \<union> fst ` set ?nif"
    unfolding fo by (rule keys_fold_assign)
  then have C': "set (map fst (frames_found ?s1)) \<subseteq> set (map fst (tracked_models ?s1))"
    using C keys by auto
  have J': "\<forall>e \<in> set (model_idx_in_list ?s1). map_at (frames_found ?s1) (fst e) = 0"
    using J unfolding same fo by (simp add: map_at_def map_of_fold_assign_const)
  show ?thesis using A' B' C' D E F J' unfolding well_formed_def same by simp
qed

lemma matchToPrevious_same_entries:
  assumes "map_of (tracked_models s) k = Some p"
  shows "same_entries (fst (matchToPrevious cp s obs)) s k"
proof -
  let ?nif = "filter (\<lambda>e. map_of (tracked_models s) (fst e) = None)
                (assigned cp s (next_model_id s) 0 obs)"
  have nk: "k \<notin> fst ` set ?nif" using assms by auto
  have "map_of (tracked_models (fst (matchToPrevious cp s obs))) k = Some p"
    using assms by (rule tracked_before_kept)
  then show ?thesis using assms nk
    by (simp add: same_entries_def nodes_of_def matchToPrevious_eq fold_insert_new_found
        fold_insert_new_lost fold_insert_new_frame map_of_fold_assign_const split: option.splits)
qed

lemma correspondence_valid:
  assumes e: "e \<in> set (snd (matchToPrevious cp s obs))"
  shows "snd e < length obs \<and> map_of (tracked_models (fst (matchToPrevious cp s obs))) (fst e) \<noteq> None"
proof -
  let ?ps = "assigned cp s (next_model_id s) 0 obs"
  let ?nif = "filter (\<lambda>e. map_of (tracked_models s) (fst e) = None) ?ps"
  have "distinct (map fst (snd (matchToPrevious cp s obs)))"
    using std_map_correspondence by (rule std_map_distinct)
  then have m: "map_of (snd (matchToPrevious cp s obs)) (fst e) = Some (snd e)"
    using e by (simp add: map_of_eq_Some_iff)
  then have mem: "(fst e, snd e) \<in> set ?ps"
    unfolding map_of_correspondence by (auto dest: map_of_SomeD)
  have len: "snd e < length obs" using correspondence_entry[OF m] by simp
  have "fst ` set (tracked_models (fst (matchToPrevious cp s obs))) =
      fst ` set (tracked_models s) \<union> fst ` set ?nif"
    by (simp add: matchToPrevious_eq fold_insert_new_tracked keys_fold_assign)
  moreover have "fst e \<in> fst ` set (tracked_models s) \<union> fst ` set ?nif"
  proof (cases "map_of (tracked_models s) (fst e)")
    case None
    then have "(fst e, snd e) \<in> set ?nif" using mem by simp
    then show ?thesis by force
  next
    case (Some a)
    then have "(fst e, a) \<in> set (tracked_models s)" by (rule map_of_SomeD)
    then have "fst e \<in> fst ` set (tracked_models s)" by (metis fst_conv imageI)
    then show ?thesis by blast
  qed
  ultimately show ?thesis using len by (simp add: map_of_eq_None_iff)
qed

lemma correspondence_matched:
  assumes B: "ids_below_counter s" and k: "map_of (tracked_models s) k = Some p"
  shows "map_of (snd (matchToPrevious cp s obs)) k \<noteq> None \<longleftrightarrow> matched_in cp s obs k"
proof
  assume "map_of (snd (matchToPrevious cp s obs)) k \<noteq> None"
  then obtain t where t: "map_of (snd (matchToPrevious cp s obs)) k = Some t" by auto
  have c: "t < length obs" "k = (case match_of cp s (obs ! t) of Some m \<Rightarrow> m
      | None \<Rightarrow> fresh_id cp s obs t)"
    using correspondence_entry[OF t] by simp_all
  have "k \<in> fst ` set (tracked_models s)" using k by (force dest: map_of_SomeD)
  then have "k \<noteq> fresh_id cp s obs t"
    using fresh_id_not_tracked[OF B, where cp = cp and obs = obs and i = t] by metis
  then have "match_of cp s (obs ! t) = Some k" using c(2) by (cases "match_of cp s (obs ! t)") auto
  then show "matched_in cp s obs k" using c(1) unfolding matched_in_def by (metis nth_mem)
next
  assume "matched_in cp s obs k"
  then obtain t where "t < length obs" "match_of cp s (obs ! t) = Some k"
    unfolding matched_in_def by (auto simp: in_set_conv_nth)
  then show "map_of (snd (matchToPrevious cp s obs)) k \<noteq> None"
    using matched_entry_last[where j = t and obs = obs and cp = cp and s = s and m = k] by auto
qed

lemma well_formed_frame_cnt [simp]: "well_formed (s\<lparr>frame_cnt := c\<rparr>) = well_formed s"
  by (simp add: well_formed_def ids_below_counter_def)

lemma well_formed_objects [simp]: "well_formed (s\<lparr>objects := h\<rparr>) = well_formed s"
  by (simp add: well_formed_def ids_below_counter_def)

lemma same_entries_objects [simp]: "same_entries (s\<lparr>objects := h\<rparr>) s k"
  by (simp add: same_entries_def nodes_of_def split: option.splits)

lemma lost_and_found_step_invariant:
  assumes t: "fst e \<in> K"
    and C: "fst ` set (frames_found s) \<subseteq> K"
    and J: "\<forall>x \<in> set (model_idx_in_list s). map_at (frames_found s) (fst x) = 0"
  shows "fst ` set (frames_found (lost_and_found_step m e s)) \<subseteq> K \<and>
     (\<forall>x \<in> set (model_idx_in_list s). map_at (frames_found (lost_and_found_step m e s)) (fst x) = 0)"
proof
  show "fst ` set (frames_found (lost_and_found_step m e s)) \<subseteq> K"
    using t C by (auto simp: lost_and_found_step_def Let_def keys_map_assign)
  show "\<forall>x \<in> set (model_idx_in_list s). map_at (frames_found (lost_and_found_step m e s)) (fst x) = 0"
  proof
    fix x assume x: "x \<in> set (model_idx_in_list s)"
    then have 0: "map_at (frames_found s) (fst x) = 0" using J by blast
    show "map_at (frames_found (lost_and_found_step m e s)) (fst x) = 0"
    proof (cases "fst x = fst e")
      case True
      have "fst e \<in> fst ` set (model_idx_in_list s)" using x True by (metis imageI)
      then have "map_of (model_idx_in_list s) (fst e) \<noteq> None" by (simp add: map_of_eq_None_iff)
      then show ?thesis using 0 True
        by (auto simp: map_at_def lost_and_found_step_self(1))
    next
      case False
      then show ?thesis using 0
        by (simp add: map_at_def lost_and_found_step_other(1)[of e "fst x"])
    qed
  qed
qed

lemma fold_lost_and_found_invariant:
  "fst ` set l \<subseteq> K \<Longrightarrow> fst ` set (frames_found s) \<subseteq> K \<Longrightarrow>
     \<forall>x \<in> set (model_idx_in_list s). map_at (frames_found s) (fst x) = 0 \<Longrightarrow>
     fst ` set (frames_found (fold (lost_and_found_step m) l s)) \<subseteq> K \<and>
     (\<forall>x \<in> set (model_idx_in_list s).
        map_at (frames_found (fold (lost_and_found_step m) l s)) (fst x) = 0)"
proof (induction l arbitrary: s)
  case Nil
  then show ?case by simp
next
  case (Cons e l)
  have e: "fst e \<in> K" and l: "fst ` set l \<subseteq> K" using Cons.prems(1) by auto
  have step: "fst ` set (frames_found (lost_and_found_step m e s)) \<subseteq> K \<and>
     (\<forall>x \<in> set (model_idx_in_list (lost_and_found_step m e s)).
        map_at (frames_found (lost_and_found_step m e s)) (fst x) = 0)"
    using lost_and_found_step_invariant[OF e Cons.prems(2,3)]
    by (simp add: lost_and_found_step_frame)
  show ?case
    using Cons.IH[OF l, of "lost_and_found_step m e s"] step
    by (simp add: lost_and_found_step_frame)
qed

lemma updateLostAndFound_well_formed:
  assumes wf: "well_formed s"
  shows "well_formed (updateLostAndFound m s)"
proof -
  have "fst ` set (frames_found (updateLostAndFound m s)) \<subseteq> fst ` set (tracked_models s) \<and>
     (\<forall>x \<in> set (model_idx_in_list s). map_at (frames_found (updateLostAndFound m s)) (fst x) = 0)"
    unfolding updateLostAndFound_def
    using wf by (intro fold_lost_and_found_invariant) (auto simp: well_formed_def)
  then show ?thesis using wf
    by (simp add: well_formed_def ids_below_counter_def updateLostAndFound_def
        fold_lost_and_found_frame)
qed

lemma materialize_step_new_handles:
  assumes "materialize_step j s = Some s'"
  shows "list_nodes s \<le> list_nodes s' \<and>
     (\<forall>h \<in> fst ` set (materialized_models s').
        h \<in> fst ` set (materialized_models s) \<or> list_nodes s \<le> h)"
  using assms by (auto simp: materialize_step_def split: option.splits if_splits)

lemma fold_materialize_new_handles:
  "fold_opt materialize_step ks s = Some s' \<Longrightarrow>
     list_nodes s \<le> list_nodes s' \<and>
     (\<forall>h \<in> fst ` set (materialized_models s').
        h \<in> fst ` set (materialized_models s) \<or> list_nodes s \<le> h)"
proof (induction ks arbitrary: s)
  case Nil
  then show ?case by simp
next
  case (Cons j ks)
  obtain s1 where s1: "materialize_step j s = Some s1"
    and rest: "fold_opt materialize_step ks s1 = Some s'"
    using Cons.prems by (auto split: option.splits)
  have a: "list_nodes s \<le> list_nodes s1"
    and b: "\<forall>h \<in> fst ` set (materialized_models s1).
        h \<in> fst ` set (materialized_models s) \<or> list_nodes s \<le> h"
    using materialize_step_new_handles[OF s1] by simp_all
  have c: "list_nodes s1 \<le> list_nodes s'"
    and d: "\<forall>h \<in> fst ` set (materialized_models s').
        h \<in> fst ` set (materialized_models s1) \<or> list_nodes s1 \<le> h"
    using Cons.IH[OF rest] by simp_all
  show ?case
  proof
    show "list_nodes s \<le> list_nodes s'" using a c by simp
    show "\<forall>h \<in> fst ` set (materialized_models s').
        h \<in> fst ` set (materialized_models s) \<or> list_nodes s \<le> h"
    proof
      fix h assume "h \<in> fst ` set (materialized_models s')"
      then consider "h \<in> fst ` set (materialized_models s1)" | "list_nodes s1 \<le> h" using d by blast
      then show "h \<in> fst ` set (materialized_models s) \<or> list_nodes s \<le> h"
      proof cases
        case 1
        then show ?thesis using b by blast
      next
        case 2
        then show ?thesis using a by simp
      qed
    qed
  qed
qed

lemma fold_drop_list_nodes:
  "fold_opt drop_step ks s = Some s' \<Longrightarrow> list_nodes s' = list_nodes s"
proof (induction ks arbitrary: s)
  case Nil
  then show ?case by simp
next
  case (Cons j ks)
  obtain s1 where s1: "drop_step j s = Some s1" and rest: "fold_opt drop_step ks s1 = Some s'"
    using Cons.prems by (auto split: option.splits)
  have "list_nodes s1 = list_nodes s"
    using s1 by (auto simp: drop_step_eq split: option.splits if_splits)
  then show ?case using Cons.IH[OF rest] by simp
qed

lemma nodes_of_cong:
  "model_idx_in_list s' = model_idx_in_list s \<Longrightarrow>
     materialized_models s' = materialized_models s \<Longrightarrow> nodes_of s' k = nodes_of s k"
  by (auto simp: nodes_of_def split: option.splits)

lemma updateObstacles_identity:
  assumes wf: "well_formed s" and k: "map_of (tracked_models s) k = Some p"
  shows "\<exists>s'. updateObstacles cp s obs = Some s' \<and> well_formed s' \<and>
     (\<not> matched_in cp s obs k \<and> 10 \<le> map_at (frames_lost s) k + 1 \<longrightarrow>
        purged s' k \<and>
        (\<forall>pos. map_of (model_idx_in_list s) k = Some pos \<longrightarrow>
           pos \<notin> fst ` set (materialized_models s'))) \<and>
     (\<not> matched_in cp s obs k \<and> map_at (frames_lost s) k + 1 < 10 \<longrightarrow>
        map_of (tracked_models s') k = Some p \<and>
        map_of (frames_lost s') k = Some (map_at (frames_lost s) k + 1) \<and>
        map_of (frames_found s') k = Some 0 \<and>
        map_of (model_idx_in_list s') k = map_of (model_idx_in_list s) k \<and>
        nodes_of s' k = nodes_of s k) \<and>
     (matched_in cp s obs k \<and> map_of (model_idx_in_list s) k = None \<and>
      5 \<le> map_at (frames_found s) k + 1 \<longrightarrow>
        map_of (tracked_models s') k = Some p \<and>
        map_of (frames_lost s') k = Some 0 \<and>
        map_of (frames_found s') k = None \<and>
        (\<exists>pos. map_of (model_idx_in_list s') k = Some pos \<and> nodes_of s' k = [(pos, p)] \<and>
           list_nodes s \<le> pos)) \<and>
     (matched_in cp s obs k \<and> map_of (model_idx_in_list s) k = None \<and>
      map_at (frames_found s) k + 1 < 5 \<longrightarrow>
        map_of (tracked_models s') k = Some p \<and>
        map_of (frames_lost s') k = Some 0 \<and>
        map_of (frames_found s') k = Some (map_at (frames_found s) k + 1) \<and>
        map_of (model_idx_in_list s') k = None) \<and>
     (matched_in cp s obs k \<and> map_of (model_idx_in_list s) k \<noteq> None \<longrightarrow>
        map_of (tracked_models s') k = Some p \<and>
        map_of (frames_lost s') k = Some 0 \<and>
        map_of (frames_found s') k = map_of (frames_found s) k \<and>
        map_of (model_idx_in_list s') k = map_of (model_idx_in_list s) k \<and>
        nodes_of s' k = nodes_of s k)"
proof -
  let ?s0 = "s\<lparr>frame_cnt := frame_cnt s + 1\<rparr>"
  let ?s1 = "fst (matchToPrevious cp ?s0 obs)"
  let ?corr = "snd (matchToPrevious cp ?s0 obs)"
  let ?s2 = "updateLostAndFound ?corr ?s1"
  let ?f = "map_at (frames_found s) k"
  let ?l = "map_at (frames_lost s) k"
  let ?m = "matched_in cp s obs k"
  have wf0: "well_formed ?s0" using wf by simp
  have k0: "map_of (tracked_models ?s0) k = Some p" using k by simp
  have wf1: "well_formed ?s1" using wf0 by (rule matchToPrevious_well_formed)
  have e1: "same_entries ?s1 ?s0 k" using k0 by (rule matchToPrevious_same_entries)
  have m_iff: "map_of ?corr k \<noteq> None \<longleftrightarrow> ?m"
  proof -
    have "ids_below_counter ?s0" using wf0 by (simp add: well_formed_def)
    then have "map_of ?corr k \<noteq> None \<longleftrightarrow> matched_in cp ?s0 obs k"
      using k0 by (rule correspondence_matched)
    then show ?thesis by (simp add: matched_in_def)
  qed
  have k1: "map_of (tracked_models ?s1) k = Some p"
    and f1: "map_of (frames_found ?s1) k = map_of (frames_found s) k"
    and l1: "map_of (frames_lost ?s1) k = map_of (frames_lost s) k"
    and i1: "map_of (model_idx_in_list ?s1) k = map_of (model_idx_in_list s) k"
    and n1: "nodes_of ?s1 k = nodes_of s k"
    using e1 k nodes_of_cong[of ?s0 s k] by (simp_all add: same_entries_def)
  have wf2: "well_formed ?s2" using wf1 by (rule updateLostAndFound_well_formed)
  have std1: "std_map (tracked_models ?s1)" using wf1 by (simp add: well_formed_def)
  have k2: "map_of (tracked_models ?s2) k = Some p"
    and i2: "map_of (model_idx_in_list ?s2) k = map_of (model_idx_in_list s) k"
    and n2: "nodes_of ?s2 k = nodes_of s k"
    using k1 i1 n1 nodes_of_cong[of ?s2 ?s1 k]
    by (simp_all add: updateLostAndFound_def fold_lost_and_found_frame)
  have f2: "map_of (frames_found ?s2) k =
      (if ?m then (if map_of (model_idx_in_list s) k = None then Some (?f + 1)
                   else map_of (frames_found s) k) else Some 0)"
    using updateLostAndFound_at(1)[OF std1 k1, of ?corr] m_iff i1 f1
    by (simp add: map_at_def)
  have l2: "map_of (frames_lost ?s2) k = (if ?m then Some 0 else Some (?l + 1))"
    using updateLostAndFound_at(2)[OF std1 k1, of ?corr] m_iff l1
    by (simp add: map_at_def)
  have valid: "\<forall>e \<in> set ?corr. snd e < length obs \<and> map_of (tracked_models ?s2) (fst e) \<noteq> None"
    using correspondence_valid[of _ cp ?s0 obs]
    by (simp add: updateLostAndFound_def fold_lost_and_found_frame)
  obtain h' where a3: "adaptTracked cp ?corr obs ?s2 = Some (?s2\<lparr>objects := h'\<rparr>)"
    using adaptTracked_defined[OF valid, of cp] by (auto simp: adaptTracked_def)
  let ?s3 = "?s2\<lparr>objects := h'\<rparr>"
  have wf3: "well_formed ?s3" using wf2 by simp
  have k3: "map_of (tracked_models ?s3) k = Some p"
    and i3: "map_of (model_idx_in_list ?s3) k = map_of (model_idx_in_list s) k"
    and n3: "nodes_of ?s3 k = nodes_of s k"
    and f3: "map_of (frames_found ?s3) k = map_of (frames_found ?s2) k"
    and l3: "map_of (frames_lost ?s3) k = map_of (frames_lost ?s2) k"
    using k2 i2 n2 nodes_of_cong[of ?s3 ?s2 k] by simp_all
  obtain s4 where d4: "dropLostObjects ?s3 = Some s4" and wf4: "well_formed s4"
    and keep4: "\<forall>j. (\<forall>n. map_of (frames_lost ?s3) j = Some n \<longrightarrow> n < 10) \<longrightarrow> same_entries s4 ?s3 j"
    and gone4: "\<forall>j n. map_of (frames_lost ?s3) j = Some n \<and> 10 \<le> n \<longrightarrow>
        purged s4 j \<and>
        (\<forall>pos. map_of (model_idx_in_list ?s3) j = Some pos \<longrightarrow>
           pos \<notin> fst ` set (materialized_models s4))"
    using dropLostObjects_at[OF wf3] by blast
  obtain s' where m5: "materializeFoundObjects s4 = Some s'" and wf5: "well_formed s'"
    and keep5: "\<forall>j. (\<forall>n. map_of (frames_found s4) j = Some n \<longrightarrow> n < 5) \<longrightarrow> same_entries s' s4 j"
    and prom5: "\<forall>j n. map_of (frames_found s4) j = Some n \<and> 5 \<le> n \<longrightarrow> promoted s4 s' j"
    using materializeFoundObjects_at[OF wf4] by blast
  have run: "updateObstacles cp s obs = Some s'"
  proof -
    obtain x1 x2 where x: "matchToPrevious cp ?s0 obs = (x1, x2)"
      by (cases "matchToPrevious cp ?s0 obs") auto
    show ?thesis using a3 d4 m5 unfolding x by (simp add: updateObstacles_def Let_def x)
  qed
  have new5: "\<forall>h \<in> fst ` set (materialized_models s').
        h \<in> fst ` set (materialized_models s4) \<or> list_nodes s4 \<le> h"
    using fold_materialize_new_handles[of "map fst (frames_found s4)" s4 s'] m5
    by (simp add: materializeFoundObjects_def)
  have ln4: "list_nodes s4 = list_nodes s"
  proof -
    have "list_nodes s4 = list_nodes ?s3"
      using d4 fold_drop_list_nodes by (simp add: dropLostObjects_def)
    moreover have "list_nodes ?s3 = list_nodes s"
      by (simp add: updateLostAndFound_def fold_lost_and_found_frame matchToPrevious_eq
          fold_insert_new_frame)
    ultimately show ?thesis by simp
  qed
  have c1: "\<not> ?m \<and> 10 \<le> ?l + 1 \<longrightarrow>
        purged s' k \<and>
        (\<forall>pos. map_of (model_idx_in_list s) k = Some pos \<longrightarrow>
           pos \<notin> fst ` set (materialized_models s'))"
  proof
    assume a: "\<not> ?m \<and> 10 \<le> ?l + 1"
    then have "map_of (frames_lost ?s3) k = Some (?l + 1) \<and> 10 \<le> ?l + 1" using l2 l3 by simp
    then have g: "purged s4 k \<and>
        (\<forall>pos. map_of (model_idx_in_list ?s3) k = Some pos \<longrightarrow>
           pos \<notin> fst ` set (materialized_models s4))"
      using gone4 by blast
    then have p4: "purged s4 k" by simp
    have h4: "\<forall>pos. map_of (model_idx_in_list s) k = Some pos \<longrightarrow>
           pos \<notin> fst ` set (materialized_models s4)"
      using g unfolding i3 by simp
    have "same_entries s' s4 k" using keep5 p4 by (simp add: purged_def)
    then have p5: "purged s' k" using p4 by (simp add: purged_def same_entries_def)
    have "pos \<notin> fst ` set (materialized_models s')"
      if pos: "map_of (model_idx_in_list s) k = Some pos" for pos
    proof
      assume "pos \<in> fst ` set (materialized_models s')"
      then have "list_nodes s4 \<le> pos" using new5 h4 pos by blast
      moreover have "list_nodes s4 = list_nodes ?s3"
      proof -
        have "list_nodes s4 = list_nodes ?s3"
          using d4 fold_drop_list_nodes by (simp add: dropLostObjects_def)
        then show ?thesis .
      qed
      moreover have "pos < list_nodes s" using idx_handle_below[OF wf pos] .
      moreover have "list_nodes ?s3 = list_nodes s"
        by (simp add: updateLostAndFound_def fold_lost_and_found_frame matchToPrevious_eq
            fold_insert_new_frame)
      ultimately show False by simp
    qed
    then show "purged s' k \<and>
        (\<forall>pos. map_of (model_idx_in_list s) k = Some pos \<longrightarrow>
           pos \<notin> fst ` set (materialized_models s'))"
      using p5 by blast
  qed
  have kept: "same_entries s' ?s3 k"
    if "\<forall>n. map_of (frames_lost ?s3) k = Some n \<longrightarrow> n < 10"
      and "\<forall>n. map_of (frames_found ?s3) k = Some n \<longrightarrow> n < 5"
  proof -
    have e4: "same_entries s4 ?s3 k" using keep4 that(1) by blast
    then have "\<forall>n. map_of (frames_found s4) k = Some n \<longrightarrow> n < 5"
      using that(2) by (simp add: same_entries_def)
    then have "same_entries s' s4 k" using keep5 by blast
    then show ?thesis using e4 by (rule same_entries_trans)
  qed
  have c2: "\<not> ?m \<and> ?l + 1 < 10 \<longrightarrow>
        map_of (tracked_models s') k = Some p \<and>
        map_of (frames_lost s') k = Some (?l + 1) \<and>
        map_of (frames_found s') k = Some 0 \<and>
        map_of (model_idx_in_list s') k = map_of (model_idx_in_list s) k \<and>
        nodes_of s' k = nodes_of s k"
  proof
    assume a: "\<not> ?m \<and> ?l + 1 < 10"
    have "same_entries s' ?s3 k" using a l2 l3 f2 f3 by (intro kept) simp_all
    then show "map_of (tracked_models s') k = Some p \<and>
        map_of (frames_lost s') k = Some (?l + 1) \<and>
        map_of (frames_found s') k = Some 0 \<and>
        map_of (model_idx_in_list s') k = map_of (model_idx_in_list s) k \<and>
        nodes_of s' k = nodes_of s k"
      using a k3 i3 n3 f2 f3 l2 l3 by (simp add: same_entries_def)
  qed
  have c3: "?m \<and> map_of (model_idx_in_list s) k = None \<and> 5 \<le> ?f + 1 \<longrightarrow>
        map_of (tracked_models s') k = Some p \<and>
        map_of (frames_lost s') k = Some 0 \<and>
        map_of (frames_found s') k = None \<and>
        (\<exists>pos. map_of (model_idx_in_list s') k = Some pos \<and> nodes_of s' k = [(pos, p)] \<and>
           list_nodes s \<le> pos)"
  proof
    assume a: "?m \<and> map_of (model_idx_in_list s) k = None \<and> 5 \<le> ?f + 1"
    have e4: "same_entries s4 ?s3 k" using keep4 a l2 l3 by simp
    then have "map_of (frames_found s4) k = Some (?f + 1)" using a f2 f3
      by (simp add: same_entries_def)
    then have "promoted s4 s' k" using prom5 a by blast
    then obtain pos q where q: "map_of (tracked_models s4) k = Some q"
        "map_of (tracked_models s') k = Some q"
        "map_of (model_idx_in_list s') k = Some pos" "nodes_of s' k = [(pos, q)]"
        "map_of (frames_found s') k = None"
        "map_of (frames_lost s') k = map_of (frames_lost s4) k"
        "pos \<notin> fst ` set (materialized_models s4)"
      unfolding promoted_def by blast
    have "q = p" using q(1) e4 k3 by (simp add: same_entries_def)
    moreover have "map_of (frames_lost s4) k = Some 0" using e4 a l2 l3 by (simp add: same_entries_def)
    moreover have "list_nodes s \<le> pos"
    proof -
      have "filter (\<lambda>n. fst n = pos) (materialized_models s') = [(pos, q)]"
        using q(3,4) by (simp add: nodes_of_def)
      then have "(pos, q) \<in> set (filter (\<lambda>n. fst n = pos) (materialized_models s'))" by simp
      then have "pos \<in> fst ` set (materialized_models s')" by force
      then show ?thesis using new5 q(7) ln4 by auto
    qed
    ultimately show "map_of (tracked_models s') k = Some p \<and>
        map_of (frames_lost s') k = Some 0 \<and>
        map_of (frames_found s') k = None \<and>
        (\<exists>pos. map_of (model_idx_in_list s') k = Some pos \<and> nodes_of s' k = [(pos, p)] \<and>
           list_nodes s \<le> pos)"
      using q by simp
  qed
  have c4: "?m \<and> map_of (model_idx_in_list s) k = None \<and> ?f + 1 < 5 \<longrightarrow>
        map_of (tracked_models s') k = Some p \<and>
        map_of (frames_lost s') k = Some 0 \<and>
        map_of (frames_found s') k = Some (?f + 1) \<and>
        map_of (model_idx_in_list s') k = None"
  proof
    assume a: "?m \<and> map_of (model_idx_in_list s) k = None \<and> ?f + 1 < 5"
    have "same_entries s' ?s3 k" using a l2 l3 f2 f3 by (intro kept) simp_all
    then show "map_of (tracked_models s') k = Some p \<and>
        map_of (frames_lost s') k = Some 0 \<and>
        map_of (frames_found s') k = Some (?f + 1) \<and>
        map_of (model_idx_in_list s') k = None"
      using a k3 i3 f2 f3 l2 l3 by (simp add: same_entries_def)
  qed
  have c5: "?m \<and> map_of (model_idx_in_list s) k \<noteq> None \<longrightarrow>
        map_of (tracked_models s') k = Some p \<and>
        map_of (frames_lost s') k = Some 0 \<and>
        map_of (frames_found s') k = map_of (frames_found s) k \<and>
        map_of (model_idx_in_list s') k = map_of (model_idx_in_list s) k \<and>
        nodes_of s' k = nodes_of s k"
  proof
    assume a: "?m \<and> map_of (model_idx_in_list s) k \<noteq> None"
    then have "k \<in> fst ` set (model_idx_in_list s)" by (simp add: map_of_eq_None_iff)
    then obtain x where "x \<in> set (model_idx_in_list s)" "fst x = k" by auto
    then have "?f = 0" using wf by (auto simp: well_formed_def)
    then have small: "\<forall>n. map_of (frames_found s) k = Some n \<longrightarrow> n < 5"
      by (auto simp: map_at_def)
    have "same_entries s' ?s3 k" using a l2 l3 f2 f3 small by (intro kept) auto
    then show "map_of (tracked_models s') k = Some p \<and>
        map_of (frames_lost s') k = Some 0 \<and>
        map_of (frames_found s') k = map_of (frames_found s) k \<and>
        map_of (model_idx_in_list s') k = map_of (model_idx_in_list s) k \<and>
        nodes_of s' k = nodes_of s k"
      using a k3 i3 n3 f2 f3 l2 l3 by (simp add: same_entries_def)
  qed
  show ?thesis
    using run wf5 c1 c2 c3 c4 c5 by (intro exI[of _ s']) (simp only: simp_thms)
qed

subsection \<open>The states reached from the constructor\<close>

lemma well_formed_initial: "well_formed (SmoothObstacleAggregator h)"
  by (simp add: well_formed_def SmoothObstacleAggregator_def std_map_def ids_below_counter_def)

lemma updateObstacles_well_formed:
  assumes wf: "well_formed s"
  shows "\<exists>s'. updateObstacles cp s obs = Some s' \<and> well_formed s'"
proof -
  let ?s0 = "s\<lparr>frame_cnt := frame_cnt s + 1\<rparr>"
  let ?s1 = "fst (matchToPrevious cp ?s0 obs)"
  let ?corr = "snd (matchToPrevious cp ?s0 obs)"
  let ?s2 = "updateLostAndFound ?corr ?s1"
  have wf2: "well_formed ?s2"
    using wf by (intro updateLostAndFound_well_formed matchToPrevious_well_formed) simp
  have valid: "\<forall>e \<in> set ?corr. snd e < length obs \<and> map_of (tracked_models ?s2) (fst e) \<noteq> None"
    using correspondence_valid[of _ cp ?s0 obs]
    by (simp add: updateLostAndFound_def fold_lost_and_found_frame)
  obtain h' where a3: "adaptTracked cp ?corr obs ?s2 = Some (?s2\<lparr>objects := h'\<rparr>)"
    using adaptTracked_defined[OF valid, of cp] by (auto simp: adaptTracked_def)
  have wf3: "well_formed (?s2\<lparr>objects := h'\<rparr>)" using wf2 by simp
  obtain s4 where d4: "dropLostObjects (?s2\<lparr>objects := h'\<rparr>) = Some s4" and wf4: "well_formed s4"
    using dropLostObjects_at[OF wf3] by blast
  obtain s' where m5: "materializeFoundObjects s4 = Some s'" and wf5: "well_formed s'"
    using materializeFoundObjects_at[OF wf4] by blast
  obtain x1 x2 where x: "matchToPrevious cp ?s0 obs = (x1, x2)"
    by (cases "matchToPrevious cp ?s0 obs") auto
  have "updateObstacles cp s obs = Some s'"
    using a3 d4 m5 unfolding x by (simp add: updateObstacles_def Let_def x)
  then show ?thesis using wf5 by blast
qed

lemma run_well_formed:
  "well_formed s \<Longrightarrow> \<exists>s'. run cp s frames = Some s' \<and> well_formed s'"
proof (induction frames arbitrary: s)
  case Nil
  then show ?case by simp
next
  case (Cons obs frames)
  obtain s1 where "updateObstacles cp s obs = Some s1" "well_formed s1"
    using updateObstacles_well_formed[OF Cons.prems] by blast
  then show ?case using Cons.IH[of s1] by simp
qed

lemma reached_well_formed:
  "run cp (SmoothObstacleAggregator h) frames = Some s \<Longrightarrow> well_formed s"
  using run_well_formed[OF well_formed_initial, of cp h frames] by auto

lemma run_total: "\<exists>s. run cp (SmoothObstacleAggregator h) frames = Some s"
  using run_well_formed[OF well_formed_initial, of cp h frames] by auto

subsection \<open>One node for each materialized identity\<close>

lemma nodes_recorded_cong:
  "model_idx_in_list s' = model_idx_in_list s \<Longrightarrow>
     materialized_models s' = materialized_models s \<Longrightarrow> nodes_recorded s' = nodes_recorded s"
  by (simp add: nodes_recorded_def)

lemma set_map_assign:
  "insert (k, v) {e \<in> set m. fst e \<noteq> k} \<subseteq> set (map_assign k v m)"
  by (induction m) auto

lemma std_map_map_of: "std_map m \<Longrightarrow> (j, x) \<in> set m \<Longrightarrow> map_of m j = Some x"
  using std_map_distinct[of m] by simp

lemma nodes_recorded_erase:
  assumes nr: "nodes_recorded s" and pos: "map_of (model_idx_in_list s) k = Some pos"
  shows "nodes_recorded (s\<lparr>tracked_models := t,
      materialized_models := filter (\<lambda>n. fst n \<noteq> pos) (materialized_models s),
      model_idx_in_list := map_erase k (model_idx_in_list s),
      frames_found := f, frames_lost := l\<rparr>)"
proof -
  have S: "std_map (model_idx_in_list s)" and D: "distinct (map fst (materialized_models s))"
    and R: "fst ` set (materialized_models s) \<subseteq> snd ` set (model_idx_in_list s)"
    using nr by (simp_all add: nodes_recorded_def)
  have S': "std_map (map_erase k (model_idx_in_list s))" using S by (rule std_map_map_erase)
  have D': "distinct (map fst (filter (\<lambda>n. fst n \<noteq> pos) (materialized_models s)))"
    using D by (rule distinct_map_filter)
  have R': "fst ` set (filter (\<lambda>n. fst n \<noteq> pos) (materialized_models s))
      \<subseteq> snd ` set (map_erase k (model_idx_in_list s))"
  proof
    fix x assume "x \<in> fst ` set (filter (\<lambda>n. fst n \<noteq> pos) (materialized_models s))"
    then have xp: "x \<noteq> pos" and "x \<in> fst ` set (materialized_models s)" by auto
    then have "x \<in> snd ` set (model_idx_in_list s)" using R by blast
    then obtain j where j: "(j, x) \<in> set (model_idx_in_list s)" by auto
    have "map_of (model_idx_in_list s) j = Some x" using S j by (rule std_map_map_of)
    then have "j \<noteq> k" using pos xp by auto
    then have "(j, x) \<in> set (map_erase k (model_idx_in_list s))"
      using j by (simp add: map_erase_def)
    then show "x \<in> snd ` set (map_erase k (model_idx_in_list s))" by force
  qed
  show ?thesis using S' D' R' by (simp add: nodes_recorded_def)
qed

lemma drop_step_nodes_recorded:
  assumes nr: "nodes_recorded s" and st: "drop_step k s = Some s'"
  shows "nodes_recorded s'"
proof (cases "map_of (frames_lost s) k")
  case None
  then show ?thesis using nr st by (simp add: drop_step_eq)
next
  case (Some n)
  show ?thesis
  proof (cases "n < 10")
    case True
    then show ?thesis using nr st Some by (simp add: drop_step_eq)
  next
    case False
    show ?thesis
    proof (cases "map_of (model_idx_in_list s) k")
      case None
      have "nodes_recorded (s\<lparr>tracked_models := map_erase k (tracked_models s),
                      frames_found := map_erase k (frames_found s),
                      frames_lost := map_erase k (frames_lost s)\<rparr>)"
        using nr by (simp add: nodes_recorded_def)
      then show ?thesis using st Some False None by (simp add: drop_step_eq)
    next
      case pos: (Some pos)
      have "nodes_recorded (s\<lparr>tracked_models := map_erase k (tracked_models s),
          materialized_models := filter (\<lambda>n. fst n \<noteq> pos) (materialized_models s),
          model_idx_in_list := map_erase k (model_idx_in_list s),
          frames_found := map_erase k (frames_found s),
          frames_lost := map_erase k (frames_lost s)\<rparr>)"
        using nr pos by (rule nodes_recorded_erase)
      then show ?thesis using st Some False pos by (simp add: drop_step_eq split: if_splits)
    qed
  qed
qed

lemma fold_drop_nodes_recorded:
  "nodes_recorded s \<Longrightarrow> fold_opt drop_step ks s = Some s' \<Longrightarrow> nodes_recorded s'"
proof (induction ks arbitrary: s)
  case Nil
  then show ?case by simp
next
  case (Cons j ks)
  obtain s1 where s1: "drop_step j s = Some s1" and rest: "fold_opt drop_step ks s1 = Some s'"
    using Cons.prems(2) by (auto split: option.splits)
  have "nodes_recorded s1" using Cons.prems(1) s1 by (rule drop_step_nodes_recorded)
  then show ?case using rest by (rule Cons.IH)
qed

lemma nodes_recorded_promote:
  assumes wf: "well_formed s" and nr: "nodes_recorded s"
    and n: "map_of (frames_found s) k = Some n" and ge: "5 \<le> n"
  shows "nodes_recorded (s\<lparr>materialized_models := materialized_models s @ [(list_nodes s, p)],
                   model_idx_in_list := map_assign k (list_nodes s) (model_idx_in_list s),
                   frames_found := f, list_nodes := c\<rparr>)"
proof -
  have S: "std_map (model_idx_in_list s)" and D: "distinct (map fst (materialized_models s))"
    and R: "fst ` set (materialized_models s) \<subseteq> snd ` set (model_idx_in_list s)"
    using nr by (simp_all add: nodes_recorded_def)
  have F: "\<forall>n \<in> set (materialized_models s). fst n < list_nodes s"
    and J: "\<forall>e \<in> set (model_idx_in_list s). map_at (frames_found s) (fst e) = 0"
    using wf by (simp_all add: well_formed_def)
  let ?ix = "map_assign k (list_nodes s) (model_idx_in_list s)"
  have S': "std_map ?ix" using S by (rule std_map_map_assign)
  have "list_nodes s \<notin> fst ` set (materialized_models s)" using F by auto
  then have D': "distinct (map fst (materialized_models s @ [(list_nodes s, p)]))"
    using D by simp
  have R': "fst ` set (materialized_models s @ [(list_nodes s, p)]) \<subseteq> snd ` set ?ix"
  proof
    fix x assume "x \<in> fst ` set (materialized_models s @ [(list_nodes s, p)])"
    then consider "x = list_nodes s" | "x \<in> fst ` set (materialized_models s)" by auto
    then show "x \<in> snd ` set ?ix"
    proof cases
      case 1
      have "(k, list_nodes s) \<in> set ?ix"
        using set_map_assign[of k "list_nodes s" "model_idx_in_list s"] by blast
      then show ?thesis using 1 by force
    next
      case 2
      then have "x \<in> snd ` set (model_idx_in_list s)" using R by blast
      then obtain j where j: "(j, x) \<in> set (model_idx_in_list s)" by auto
      then have "map_at (frames_found s) (fst (j, x)) = 0" using J by blast
      then have "j \<noteq> k" using n ge by (auto simp: map_at_def)
      then have "(j, x) \<in> set ?ix"
        using j set_map_assign[of k "list_nodes s" "model_idx_in_list s"] by auto
      then show ?thesis by force
    qed
  qed
  show ?thesis using S' D' R' by (simp add: nodes_recorded_def)
qed

lemma materialize_step_nodes_recorded:
  assumes wf: "well_formed s" and nr: "nodes_recorded s" and st: "materialize_step k s = Some s'"
  shows "nodes_recorded s'"
proof (cases "map_of (frames_found s) k = None \<or> (\<exists>n. map_of (frames_found s) k = Some n \<and> n < 5)")
  case True
  then have "materialize_step k s = Some s" by (rule materialize_step_below)
  then show ?thesis using st nr by simp
next
  case False
  then obtain n where n: "map_of (frames_found s) k = Some n" "5 \<le> n"
    by (cases "map_of (frames_found s) k") auto
  obtain p where p: "map_of (tracked_models s) k = Some p"
    using materialize_step_at[OF wf n] by blast
  have "nodes_recorded (s\<lparr>materialized_models := materialized_models s @ [(list_nodes s, p)],
                   model_idx_in_list := map_assign k (list_nodes s) (model_idx_in_list s),
                   frames_found := map_erase k (frames_found s),
                   list_nodes := Suc (list_nodes s)\<rparr>)"
    using wf nr n by (rule nodes_recorded_promote)
  then show ?thesis using st n p by (simp add: materialize_step_def)
qed

lemma fold_materialize_nodes_recorded:
  "well_formed s \<Longrightarrow> nodes_recorded s \<Longrightarrow> fold_opt materialize_step ks s = Some s' \<Longrightarrow>
     nodes_recorded s'"
proof (induction ks arbitrary: s)
  case Nil
  then show ?case by simp
next
  case (Cons j ks)
  obtain s1 where s1: "materialize_step j s = Some s1"
    and rest: "fold_opt materialize_step ks s1 = Some s'"
    using Cons.prems(3) by (auto split: option.splits)
  have wf1: "well_formed s1" using materialize_step_well_formed[OF Cons.prems(1), of j] s1 by auto
  have "nodes_recorded s1" using Cons.prems(1,2) s1 by (rule materialize_step_nodes_recorded)
  then show ?case using wf1 rest Cons.IH by blast
qed

lemma updateObstacles_nodes_recorded:
  assumes wf: "well_formed s" and nr: "nodes_recorded s"
    and st: "updateObstacles cp s obs = Some s'"
  shows "nodes_recorded s'"
proof -
  let ?s0 = "s\<lparr>frame_cnt := frame_cnt s + 1\<rparr>"
  let ?s1 = "fst (matchToPrevious cp ?s0 obs)"
  let ?corr = "snd (matchToPrevious cp ?s0 obs)"
  let ?s2 = "updateLostAndFound ?corr ?s1"
  have wf2: "well_formed ?s2"
    using wf by (intro updateLostAndFound_well_formed matchToPrevious_well_formed) simp
  have valid: "\<forall>e \<in> set ?corr. snd e < length obs \<and> map_of (tracked_models ?s2) (fst e) \<noteq> None"
    using correspondence_valid[of _ cp ?s0 obs]
    by (simp add: updateLostAndFound_def fold_lost_and_found_frame)
  obtain h' where a3: "adaptTracked cp ?corr obs ?s2 = Some (?s2\<lparr>objects := h'\<rparr>)"
    using adaptTracked_defined[OF valid, of cp] by (auto simp: adaptTracked_def)
  have wf3: "well_formed (?s2\<lparr>objects := h'\<rparr>)" using wf2 by simp
  have "model_idx_in_list ?s2 = model_idx_in_list s"
    "materialized_models ?s2 = materialized_models s"
    by (simp_all add: updateLostAndFound_def fold_lost_and_found_frame matchToPrevious_eq
        fold_insert_new_frame)
  then have nr3: "nodes_recorded (?s2\<lparr>objects := h'\<rparr>)"
    using nr by (simp add: nodes_recorded_def)
  obtain s4 where d4: "dropLostObjects (?s2\<lparr>objects := h'\<rparr>) = Some s4" and wf4: "well_formed s4"
    using dropLostObjects_at[OF wf3] by blast
  have "fold_opt drop_step (map fst (frames_lost (?s2\<lparr>objects := h'\<rparr>))) (?s2\<lparr>objects := h'\<rparr>) = Some s4"
    using d4 by (simp add: dropLostObjects_def)
  with nr3 have nr4: "nodes_recorded s4" by (rule fold_drop_nodes_recorded)
  obtain x1 x2 where x: "matchToPrevious cp ?s0 obs = (x1, x2)"
    by (cases "matchToPrevious cp ?s0 obs") auto
  have "materializeFoundObjects s4 = Some s'"
    using st a3 d4 unfolding x by (simp add: updateObstacles_def Let_def x)
  then have "fold_opt materialize_step (map fst (frames_found s4)) s4 = Some s'"
    by (simp add: materializeFoundObjects_def)
  with wf4 nr4 show ?thesis by (rule fold_materialize_nodes_recorded)
qed

lemma run_nodes_recorded:
  "well_formed s \<Longrightarrow> nodes_recorded s \<Longrightarrow> run cp s frames = Some s' \<Longrightarrow> nodes_recorded s'"
proof (induction frames arbitrary: s)
  case Nil
  then show ?case by simp
next
  case (Cons obs frames)
  obtain s1 where s1: "updateObstacles cp s obs = Some s1" and rest: "run cp s1 frames = Some s'"
    using Cons.prems(3) by (auto split: option.splits)
  have wf1: "well_formed s1" using updateObstacles_well_formed[OF Cons.prems(1), of cp obs] s1 by auto
  have "nodes_recorded s1" using Cons.prems(1,2) s1 by (rule updateObstacles_nodes_recorded)
  then show ?case using wf1 rest Cons.IH by blast
qed

lemma reached_nodes_recorded:
  assumes "run cp (SmoothObstacleAggregator h) frames = Some s"
  shows "nodes_recorded s"
proof -
  have "nodes_recorded (SmoothObstacleAggregator h)"
    by (simp add: nodes_recorded_def SmoothObstacleAggregator_def std_map_def)
  with well_formed_initial show ?thesis using assms by (rule run_nodes_recorded)
qed

lemma reached_one_node_each:
  assumes "run cp (SmoothObstacleAggregator h) frames = Some s"
  shows "fst ` set (materialized_models s) = snd ` set (model_idx_in_list s) \<and>
     length (materialized_models s) = length (model_idx_in_list s)"
proof -
  have wf: "well_formed s" using assms by (rule reached_well_formed)
  have nr: "nodes_recorded s" using assms by (rule reached_nodes_recorded)
  have eq: "set (map fst (materialized_models s)) = set (map snd (model_idx_in_list s))"
    using wf nr by (auto simp: well_formed_def nodes_recorded_def)
  have "distinct (map fst (materialized_models s))" using nr by (simp add: nodes_recorded_def)
  then have a: "card (set (map fst (materialized_models s))) = length (materialized_models s)"
    using distinct_card by fastforce
  have "distinct (map snd (model_idx_in_list s))" using wf by (simp add: well_formed_def)
  then have b: "card (set (map snd (model_idx_in_list s))) = length (model_idx_in_list s)"
    using distinct_card by fastforce
  show ?thesis using eq a b by simp
qed

lemma set_map_assign_sub: "set (map_assign k v m) \<subseteq> insert (k, v) (set m)"
  by (induction m) auto

lemma nodes_tracked_erase:
  assumes wf: "well_formed s" and nt: "nodes_tracked s"
    and pos: "map_of (model_idx_in_list s) k = Some pos"
  shows "nodes_tracked (s\<lparr>tracked_models := map_erase k (tracked_models s),
      materialized_models := filter (\<lambda>n. fst n \<noteq> pos) (materialized_models s),
      model_idx_in_list := map_erase k (model_idx_in_list s),
      frames_found := f, frames_lost := l\<rparr>)"
proof -
  have E: "distinct (map snd (model_idx_in_list s))" using wf by (simp add: well_formed_def)
  have kp: "(k, pos) \<in> set (model_idx_in_list s)" using pos by (rule map_of_SomeD)
  have "\<exists>p. map_of (map_erase k (tracked_models s)) (fst e) = Some p \<and>
      (snd e, p) \<in> set (filter (\<lambda>n. fst n \<noteq> pos) (materialized_models s))"
    if e: "e \<in> set (map_erase k (model_idx_in_list s))" for e
  proof -
    have em: "e \<in> set (model_idx_in_list s)" and ne: "fst e \<noteq> k"
      using e by (simp_all add: map_erase_def)
    obtain p where p: "map_of (tracked_models s) (fst e) = Some p"
      "(snd e, p) \<in> set (materialized_models s)"
      using nt em unfolding nodes_tracked_def by blast
    have "(fst e, snd e) \<in> set (model_idx_in_list s)" using em by simp
    then have "snd e \<noteq> pos" using distinct_snd_inj[OF E _ kp, of "fst e"] ne by blast
    then have "(snd e, p) \<in> set (filter (\<lambda>n. fst n \<noteq> pos) (materialized_models s))"
      using p(2) by simp
    moreover have "map_of (map_erase k (tracked_models s)) (fst e) = Some p"
      using p(1) ne by (simp add: map_of_map_erase)
    ultimately show ?thesis by blast
  qed
  then show ?thesis by (simp add: nodes_tracked_def)
qed

lemma nodes_tracked_erase_none:
  assumes nt: "nodes_tracked s" and none: "map_of (model_idx_in_list s) k = None"
  shows "nodes_tracked (s\<lparr>tracked_models := map_erase k (tracked_models s),
      frames_found := f, frames_lost := l\<rparr>)"
proof -
  have "\<exists>p. map_of (map_erase k (tracked_models s)) (fst e) = Some p \<and>
      (snd e, p) \<in> set (materialized_models s)"
    if e: "e \<in> set (model_idx_in_list s)" for e
  proof -
    obtain p where p: "map_of (tracked_models s) (fst e) = Some p"
      "(snd e, p) \<in> set (materialized_models s)"
      using nt e unfolding nodes_tracked_def by blast
    have "fst e \<in> fst ` set (model_idx_in_list s)" using e by (rule imageI)
    then have "fst e \<noteq> k" using none by (auto simp: map_of_eq_None_iff)
    then have "map_of (map_erase k (tracked_models s)) (fst e) = Some p"
      using p(1) by (simp add: map_of_map_erase)
    then show ?thesis using p(2) by blast
  qed
  then show ?thesis by (simp add: nodes_tracked_def)
qed

lemma drop_step_nodes_tracked:
  assumes wf: "well_formed s" and nt: "nodes_tracked s" and st: "drop_step k s = Some s'"
  shows "nodes_tracked s'"
proof (cases "map_of (frames_lost s) k")
  case None
  then show ?thesis using nt st by (simp add: drop_step_eq)
next
  case (Some n)
  show ?thesis
  proof (cases "n < 10")
    case True
    then show ?thesis using nt st Some by (simp add: drop_step_eq)
  next
    case False
    show ?thesis
    proof (cases "map_of (model_idx_in_list s) k")
      case None
      have "nodes_tracked (s\<lparr>tracked_models := map_erase k (tracked_models s),
                      frames_found := map_erase k (frames_found s),
                      frames_lost := map_erase k (frames_lost s)\<rparr>)"
        using nt None by (rule nodes_tracked_erase_none)
      then show ?thesis using st Some False None by (simp add: drop_step_eq)
    next
      case pos: (Some pos)
      have "nodes_tracked (s\<lparr>tracked_models := map_erase k (tracked_models s),
          materialized_models := filter (\<lambda>n. fst n \<noteq> pos) (materialized_models s),
          model_idx_in_list := map_erase k (model_idx_in_list s),
          frames_found := map_erase k (frames_found s),
          frames_lost := map_erase k (frames_lost s)\<rparr>)"
        using wf nt pos by (rule nodes_tracked_erase)
      then show ?thesis using st Some False pos by (simp add: drop_step_eq split: if_splits)
    qed
  qed
qed

lemma fold_drop_nodes_tracked:
  "well_formed s \<Longrightarrow> nodes_tracked s \<Longrightarrow> fold_opt drop_step ks s = Some s' \<Longrightarrow>
     nodes_tracked s'"
proof (induction ks arbitrary: s)
  case Nil
  then show ?case by simp
next
  case (Cons j ks)
  obtain s1 where s1: "drop_step j s = Some s1" and rest: "fold_opt drop_step ks s1 = Some s'"
    using Cons.prems(3) by (auto split: option.splits)
  have wf1: "well_formed s1" using drop_step_well_formed[OF Cons.prems(1), of j] s1 by auto
  have "nodes_tracked s1" using Cons.prems(1,2) s1 by (rule drop_step_nodes_tracked)
  with wf1 show ?case using rest by (rule Cons.IH)
qed

lemma nodes_tracked_promote:
  assumes nt: "nodes_tracked s" and p: "map_of (tracked_models s) k = Some p"
  shows "nodes_tracked (s\<lparr>materialized_models := materialized_models s @ [(list_nodes s, p)],
                   model_idx_in_list := map_assign k (list_nodes s) (model_idx_in_list s),
                   frames_found := f, list_nodes := c\<rparr>)"
proof -
  have "\<exists>q. map_of (tracked_models s) (fst e) = Some q \<and>
      (snd e, q) \<in> set (materialized_models s @ [(list_nodes s, p)])"
    if e: "e \<in> set (map_assign k (list_nodes s) (model_idx_in_list s))" for e
  proof -
    consider "e = (k, list_nodes s)" | "e \<in> set (model_idx_in_list s)"
      using e set_map_assign_sub[of k "list_nodes s" "model_idx_in_list s"] by blast
    then show ?thesis
    proof cases
      case 1
      then show ?thesis using p by simp
    next
      case 2
      then obtain q where "map_of (tracked_models s) (fst e) = Some q"
        "(snd e, q) \<in> set (materialized_models s)"
        using nt unfolding nodes_tracked_def by blast
      then show ?thesis by auto
    qed
  qed
  then show ?thesis by (simp add: nodes_tracked_def)
qed

lemma materialize_step_nodes_tracked:
  assumes wf: "well_formed s" and nt: "nodes_tracked s" and st: "materialize_step k s = Some s'"
  shows "nodes_tracked s'"
proof (cases "map_of (frames_found s) k = None \<or> (\<exists>n. map_of (frames_found s) k = Some n \<and> n < 5)")
  case True
  then have "materialize_step k s = Some s" by (rule materialize_step_below)
  then show ?thesis using st nt by simp
next
  case False
  then obtain n where n: "map_of (frames_found s) k = Some n" "5 \<le> n"
    by (cases "map_of (frames_found s) k") auto
  obtain p where p: "map_of (tracked_models s) k = Some p"
    using materialize_step_at[OF wf n] by blast
  have "nodes_tracked (s\<lparr>materialized_models := materialized_models s @ [(list_nodes s, p)],
                   model_idx_in_list := map_assign k (list_nodes s) (model_idx_in_list s),
                   frames_found := map_erase k (frames_found s),
                   list_nodes := Suc (list_nodes s)\<rparr>)"
    using nt p by (rule nodes_tracked_promote)
  then show ?thesis using st n p by (simp add: materialize_step_def)
qed

lemma fold_materialize_nodes_tracked:
  "well_formed s \<Longrightarrow> nodes_tracked s \<Longrightarrow> fold_opt materialize_step ks s = Some s' \<Longrightarrow>
     nodes_tracked s'"
proof (induction ks arbitrary: s)
  case Nil
  then show ?case by simp
next
  case (Cons j ks)
  obtain s1 where s1: "materialize_step j s = Some s1"
    and rest: "fold_opt materialize_step ks s1 = Some s'"
    using Cons.prems(3) by (auto split: option.splits)
  have wf1: "well_formed s1" using materialize_step_well_formed[OF Cons.prems(1), of j] s1 by auto
  have "nodes_tracked s1" using Cons.prems(1,2) s1 by (rule materialize_step_nodes_tracked)
  with wf1 show ?case using rest by (rule Cons.IH)
qed

lemma updateObstacles_nodes_tracked:
  assumes wf: "well_formed s" and nt: "nodes_tracked s"
    and st: "updateObstacles cp s obs = Some s'"
  shows "nodes_tracked s'"
proof -
  let ?s0 = "s\<lparr>frame_cnt := frame_cnt s + 1\<rparr>"
  let ?s1 = "fst (matchToPrevious cp ?s0 obs)"
  let ?corr = "snd (matchToPrevious cp ?s0 obs)"
  let ?s2 = "updateLostAndFound ?corr ?s1"
  have wf2: "well_formed ?s2"
    using wf by (intro updateLostAndFound_well_formed matchToPrevious_well_formed) simp
  have valid: "\<forall>e \<in> set ?corr. snd e < length obs \<and> map_of (tracked_models ?s2) (fst e) \<noteq> None"
    using correspondence_valid[of _ cp ?s0 obs]
    by (simp add: updateLostAndFound_def fold_lost_and_found_frame)
  obtain h' where a3: "adaptTracked cp ?corr obs ?s2 = Some (?s2\<lparr>objects := h'\<rparr>)"
    using adaptTracked_defined[OF valid, of cp] by (auto simp: adaptTracked_def)
  let ?s3 = "?s2\<lparr>objects := h'\<rparr>"
  have wf3: "well_formed ?s3" using wf2 by simp
  have ix: "model_idx_in_list ?s3 = model_idx_in_list s"
    and ml: "materialized_models ?s3 = materialized_models s"
    and tm: "tracked_models ?s3 = tracked_models ?s1"
    by (simp_all add: updateLostAndFound_def fold_lost_and_found_frame matchToPrevious_eq
        fold_insert_new_frame)
  have "\<exists>p. map_of (tracked_models ?s1) (fst e) = Some p \<and> (snd e, p) \<in> set (materialized_models s)"
    if e: "e \<in> set (model_idx_in_list s)" for e
  proof -
    obtain p where p: "map_of (tracked_models s) (fst e) = Some p"
      "(snd e, p) \<in> set (materialized_models s)"
      using nt e unfolding nodes_tracked_def by blast
    have "map_of (tracked_models ?s0) (fst e) = Some p" using p(1) by simp
    then have "same_entries ?s1 ?s0 (fst e)" by (rule matchToPrevious_same_entries)
    then have "map_of (tracked_models ?s1) (fst e) = Some p"
      using p(1) by (simp add: same_entries_def)
    then show ?thesis using p(2) by blast
  qed
  then have nt3: "nodes_tracked ?s3"
    unfolding nodes_tracked_def ix ml tm by blast
  obtain s4 where d4: "dropLostObjects ?s3 = Some s4" and wf4: "well_formed s4"
    using dropLostObjects_at[OF wf3] by blast
  have "fold_opt drop_step (map fst (frames_lost ?s3)) ?s3 = Some s4"
    using d4 by (simp add: dropLostObjects_def)
  with wf3 nt3 have nt4: "nodes_tracked s4" by (rule fold_drop_nodes_tracked)
  obtain x1 x2 where x: "matchToPrevious cp ?s0 obs = (x1, x2)"
    by (cases "matchToPrevious cp ?s0 obs") auto
  have "materializeFoundObjects s4 = Some s'"
    using st a3 d4 unfolding x by (simp add: updateObstacles_def Let_def x)
  then have "fold_opt materialize_step (map fst (frames_found s4)) s4 = Some s'"
    by (simp add: materializeFoundObjects_def)
  with wf4 nt4 show ?thesis by (rule fold_materialize_nodes_tracked)
qed

lemma run_nodes_tracked:
  "well_formed s \<Longrightarrow> nodes_tracked s \<Longrightarrow> run cp s frames = Some s' \<Longrightarrow> nodes_tracked s'"
proof (induction frames arbitrary: s)
  case Nil
  then show ?case by simp
next
  case (Cons obs frames)
  obtain s1 where s1: "updateObstacles cp s obs = Some s1" and rest: "run cp s1 frames = Some s'"
    using Cons.prems(3) by (auto split: option.splits)
  have wf1: "well_formed s1" using updateObstacles_well_formed[OF Cons.prems(1), of cp obs] s1 by auto
  have "nodes_tracked s1" using Cons.prems(1,2) s1 by (rule updateObstacles_nodes_tracked)
  with wf1 show ?case using rest by (rule Cons.IH)
qed

lemma reached_nodes_tracked:
  assumes "run cp (SmoothObstacleAggregator h) frames = Some s"
  shows "nodes_tracked s"
proof -
  have "nodes_tracked (SmoothObstacleAggregator h)"
    by (simp add: nodes_tracked_def SmoothObstacleAggregator_def)
  with well_formed_initial show ?thesis using assms by (rule run_nodes_tracked)
qed

lemma reached_node_of:
  assumes r: "run cp (SmoothObstacleAggregator h) frames = Some s"
    and k: "map_of (tracked_models s) k = Some p"
    and pos: "map_of (model_idx_in_list s) k = Some pos"
  shows "nodes_of s k = [(pos, p)]"
proof -
  have "(k, pos) \<in> set (model_idx_in_list s)" using pos by (rule map_of_SomeD)
  then obtain q where "map_of (tracked_models s) (fst (k, pos)) = Some q"
    "(snd (k, pos), q) \<in> set (materialized_models s)"
    using reached_nodes_tracked[OF r] unfolding nodes_tracked_def by blast
  then have m: "(pos, p) \<in> set (materialized_models s)" using k by simp
  have d: "distinct (map fst (materialized_models s))"
    using reached_nodes_recorded[OF r] by (simp add: nodes_recorded_def)
  have "filter (\<lambda>n. fst n = pos) l = [(pos, p)]"
    if "distinct (map fst l)" "(pos, p) \<in> set l" for l :: "(nat \<times> ObjectModelPtr) list"
    using that
  proof (induction l)
    case Nil
    then show ?case by simp
  next
    case (Cons a l)
    show ?case
    proof (cases "a = (pos, p)")
      case True
      have "pos \<notin> fst ` set l" using Cons.prems(1) True by auto
      then have "filter (\<lambda>n. fst n = pos) l = []" by (auto simp: filter_empty_conv)
      then show ?thesis using True by simp
    next
      case False
      then have in_l: "(pos, p) \<in> set l" using Cons.prems(2) by simp
      then have "pos \<in> fst ` set l" by force
      then have "fst a \<noteq> pos" using Cons.prems(1) by auto
      then show ?thesis using Cons.IH in_l Cons.prems(1) by simp
    qed
  qed
  then show ?thesis using d m pos by (simp add: nodes_of_def)
qed

subsection \<open>The order of the list\<close>

lemma drop_step_list:
  assumes st: "drop_step k s = Some s'"
  shows "\<exists>D. materialized_models s' = filter (\<lambda>n. fst n \<notin> D) (materialized_models s)"
proof -
  have same: "materialized_models s' = materialized_models s \<Longrightarrow> ?thesis"
  proof -
    assume "materialized_models s' = materialized_models s"
    then have "materialized_models s' = filter (\<lambda>n. fst n \<notin> {}) (materialized_models s)" by simp
    then show ?thesis by (rule exI[of _ "{}"])
  qed
  show ?thesis
  proof (cases "map_of (frames_lost s) k")
    case None
    then show ?thesis using st same by (simp add: drop_step_eq)
  next
    case (Some n)
    show ?thesis
    proof (cases "n < 10")
      case True
      then show ?thesis using st Some same by (simp add: drop_step_eq)
    next
      case False
      show ?thesis
      proof (cases "map_of (model_idx_in_list s) k")
        case None
        have "materialized_models s' = materialized_models s"
          using st Some False None by (auto simp: drop_step_eq)
        then show ?thesis by (rule same)
      next
        case pos: (Some pos)
        have "materialized_models s' = filter (\<lambda>n. fst n \<noteq> pos) (materialized_models s)"
          using st Some False pos by (auto simp: drop_step_eq split: if_splits)
        then have "materialized_models s' = filter (\<lambda>n. fst n \<notin> {pos}) (materialized_models s)"
          by simp
        then show ?thesis by (rule exI[of _ "{pos}"])
      qed
    qed
  qed
qed

lemma fold_drop_list:
  "fold_opt drop_step ks s = Some s' \<Longrightarrow>
     \<exists>D. materialized_models s' = filter (\<lambda>n. fst n \<notin> D) (materialized_models s)"
proof (induction ks arbitrary: s)
  case Nil
  then have "materialized_models s' = filter (\<lambda>n. fst n \<notin> {}) (materialized_models s)" by simp
  then show ?case by (rule exI[of _ "{}"])
next
  case (Cons j ks)
  obtain s1 where s1: "drop_step j s = Some s1" and rest: "fold_opt drop_step ks s1 = Some s'"
    using Cons.prems by (auto split: option.splits)
  obtain D1 where D1: "materialized_models s1 = filter (\<lambda>n. fst n \<notin> D1) (materialized_models s)"
    using drop_step_list[OF s1] by blast
  obtain D2 where D2: "materialized_models s' = filter (\<lambda>n. fst n \<notin> D2) (materialized_models s1)"
    using Cons.IH[OF rest] by blast
  have "materialized_models s' = filter (\<lambda>n. fst n \<notin> D1 \<union> D2) (materialized_models s)"
    unfolding D2 D1 by (simp add: conj_commute)
  then show ?case by (rule exI[of _ "D1 \<union> D2"])
qed

lemma materialize_step_list:
  assumes st: "materialize_step j s = Some s'"
  shows "\<exists>new. materialized_models s' = materialized_models s @ new \<and>
     (\<forall>n \<in> set new. list_nodes s \<le> fst n) \<and> list_nodes s \<le> list_nodes s'"
proof (cases "map_of (frames_found s) j = None \<or> (\<exists>n. map_of (frames_found s) j = Some n \<and> n < 5)")
  case True
  then have "materialize_step j s = Some s" by (rule materialize_step_below)
  then have "s' = s" using st by simp
  then have "materialized_models s' = materialized_models s @ [] \<and>
     (\<forall>n \<in> set []. list_nodes s \<le> fst n) \<and> list_nodes s \<le> list_nodes s'" by simp
  then show ?thesis by (rule exI[of _ "[]"])
next
  case False
  then obtain n where n: "map_of (frames_found s) j = Some n" "5 \<le> n"
    by (cases "map_of (frames_found s) j") auto
  obtain p where p: "map_of (tracked_models s) j = Some p"
    using st n by (auto simp: materialize_step_def split: option.splits)
  have "s' = s\<lparr>materialized_models := materialized_models s @ [(list_nodes s, p)],
                   model_idx_in_list := map_assign j (list_nodes s) (model_idx_in_list s),
                   frames_found := map_erase j (frames_found s),
                   list_nodes := Suc (list_nodes s)\<rparr>"
    using st n p by (simp add: materialize_step_def)
  then have "materialized_models s' = materialized_models s @ [(list_nodes s, p)] \<and>
     (\<forall>n \<in> set [(list_nodes s, p)]. list_nodes s \<le> fst n) \<and> list_nodes s \<le> list_nodes s'"
    by simp
  then show ?thesis by (rule exI[of _ "[(list_nodes s, p)]"])
qed

lemma fold_materialize_list:
  "fold_opt materialize_step ks s = Some s' \<Longrightarrow>
     \<exists>new. materialized_models s' = materialized_models s @ new \<and>
       (\<forall>n \<in> set new. list_nodes s \<le> fst n) \<and> list_nodes s \<le> list_nodes s'"
proof (induction ks arbitrary: s)
  case Nil
  then have "materialized_models s' = materialized_models s @ [] \<and>
     (\<forall>n \<in> set []. list_nodes s \<le> fst n) \<and> list_nodes s \<le> list_nodes s'" by simp
  then show ?case by (rule exI[of _ "[]"])
next
  case (Cons j ks)
  obtain s1 where s1: "materialize_step j s = Some s1"
    and rest: "fold_opt materialize_step ks s1 = Some s'"
    using Cons.prems by (auto split: option.splits)
  obtain n1 where n1: "materialized_models s1 = materialized_models s @ n1"
    "\<forall>n \<in> set n1. list_nodes s \<le> fst n" "list_nodes s \<le> list_nodes s1"
    using materialize_step_list[OF s1] by blast
  obtain n2 where n2: "materialized_models s' = materialized_models s1 @ n2"
    "\<forall>n \<in> set n2. list_nodes s1 \<le> fst n" "list_nodes s1 \<le> list_nodes s'"
    using Cons.IH[OF rest] by blast
  have "\<forall>n \<in> set n2. list_nodes s \<le> fst n" using n2(2) n1(3) by auto
  then have "materialized_models s' = materialized_models s @ (n1 @ n2) \<and>
     (\<forall>n \<in> set (n1 @ n2). list_nodes s \<le> fst n) \<and> list_nodes s \<le> list_nodes s'"
    using n1 n2 by auto
  then show ?case by (rule exI[of _ "n1 @ n2"])
qed

lemma updateObstacles_list:
  assumes wf: "well_formed s" and st: "updateObstacles cp s obs = Some s'"
  shows "\<exists>new. materialized_models s' =
       filter (\<lambda>n. fst n \<in> fst ` set (materialized_models s')) (materialized_models s) @ new \<and>
     (\<forall>n \<in> set new. list_nodes s \<le> fst n)"
proof -
  let ?s0 = "s\<lparr>frame_cnt := frame_cnt s + 1\<rparr>"
  let ?s1 = "fst (matchToPrevious cp ?s0 obs)"
  let ?corr = "snd (matchToPrevious cp ?s0 obs)"
  let ?s2 = "updateLostAndFound ?corr ?s1"
  have wf2: "well_formed ?s2"
    using wf by (intro updateLostAndFound_well_formed matchToPrevious_well_formed) simp
  have valid: "\<forall>e \<in> set ?corr. snd e < length obs \<and> map_of (tracked_models ?s2) (fst e) \<noteq> None"
    using correspondence_valid[of _ cp ?s0 obs]
    by (simp add: updateLostAndFound_def fold_lost_and_found_frame)
  obtain h' where a3: "adaptTracked cp ?corr obs ?s2 = Some (?s2\<lparr>objects := h'\<rparr>)"
    using adaptTracked_defined[OF valid, of cp] by (auto simp: adaptTracked_def)
  let ?s3 = "?s2\<lparr>objects := h'\<rparr>"
  have wf3: "well_formed ?s3" using wf2 by simp
  have ml: "materialized_models ?s3 = materialized_models s"
    and ln: "list_nodes ?s3 = list_nodes s"
    by (simp_all add: updateLostAndFound_def fold_lost_and_found_frame matchToPrevious_eq
        fold_insert_new_frame)
  obtain s4 where d4: "dropLostObjects ?s3 = Some s4"
    using dropLostObjects_at[OF wf3] by blast
  have f4: "fold_opt drop_step (map fst (frames_lost ?s3)) ?s3 = Some s4"
    using d4 by (simp add: dropLostObjects_def)
  obtain D where D: "materialized_models s4 = filter (\<lambda>n. fst n \<notin> D) (materialized_models s)"
    using fold_drop_list[OF f4] unfolding ml by blast
  have ln4: "list_nodes s4 = list_nodes s" using fold_drop_list_nodes[OF f4] ln by simp
  obtain x1 x2 where x: "matchToPrevious cp ?s0 obs = (x1, x2)"
    by (cases "matchToPrevious cp ?s0 obs") auto
  have "materializeFoundObjects s4 = Some s'"
    using st a3 d4 unfolding x by (simp add: updateObstacles_def Let_def x)
  then have f5: "fold_opt materialize_step (map fst (frames_found s4)) s4 = Some s'"
    by (simp add: materializeFoundObjects_def)
  obtain new where new: "materialized_models s' = materialized_models s4 @ new"
    "\<forall>n \<in> set new. list_nodes s \<le> fst n"
    using fold_materialize_list[OF f5] unfolding ln4 by blast
  have below: "\<forall>n \<in> set (materialized_models s). fst n < list_nodes s"
    using wf by (simp add: well_formed_def)
  have "filter (\<lambda>n. fst n \<in> fst ` set (materialized_models s')) (materialized_models s)
      = filter (\<lambda>n. fst n \<notin> D) (materialized_models s)"
  proof (rule filter_cong)
    show "materialized_models s = materialized_models s" by simp
    fix n assume n: "n \<in> set (materialized_models s)"
    show "(fst n \<in> fst ` set (materialized_models s')) = (fst n \<notin> D)"
    proof
      assume "fst n \<in> fst ` set (materialized_models s')"
      then obtain m where m: "m \<in> set (materialized_models s')" "fst m = fst n" by auto
      have "m \<notin> set new" using new(2) below n m(2) by fastforce
      then have "m \<in> set (filter (\<lambda>n. fst n \<notin> D) (materialized_models s))"
        using m(1) new(1) D by simp
      then show "fst n \<notin> D" using m(2) by simp
    next
      assume "fst n \<notin> D"
      then have "n \<in> set (materialized_models s')" using n new(1) D by simp
      then show "fst n \<in> fst ` set (materialized_models s')" by (rule imageI)
    qed
  qed
  then have "materialized_models s' =
       filter (\<lambda>n. fst n \<in> fst ` set (materialized_models s')) (materialized_models s) @ new \<and>
     (\<forall>n \<in> set new. list_nodes s \<le> fst n)"
    using new D by simp
  then show ?thesis by (rule exI[of _ new])
qed

subsection \<open>Eviction and promotion\<close>

text \<open>
  Claim C5. In every state reached from the constructor, for every tracked identity,
  materialized or not: a frame that does not match it and leaves its lost-streak at 9 or
  less keeps its entry in the tracked table, its position and its nodes in the list of
  materialized objects, and a frame that matches it keeps it tracked with lost-streak 0;
  the frame that does not match it and takes its lost-streak to 10 removes it from the
  tracked table, from both counters and from the positions, and unlinks its node from
  the list. The frame returns, and the state it returns is the only one the attached
  aggregators get to see.
\<close>

theorem eviction_boundary:
  assumes "run cp (SmoothObstacleAggregator h) frames = Some s"
    and "map_of (tracked_models s) k = Some p"
  shows "\<exists>s'. updateObstacles cp s obs = Some s' \<and>
     (\<not> matched_in cp s obs k \<and> 10 \<le> map_at (frames_lost s) k + 1 \<longrightarrow>
        purged s' k \<and>
        (\<forall>pos. map_of (model_idx_in_list s) k = Some pos \<longrightarrow>
           pos \<notin> fst ` set (materialized_models s'))) \<and>
     (\<not> matched_in cp s obs k \<and> map_at (frames_lost s) k + 1 \<le> 9 \<longrightarrow>
        map_of (tracked_models s') k = Some p \<and>
        map_of (frames_lost s') k = Some (map_at (frames_lost s) k + 1) \<and>
        map_of (frames_found s') k = Some 0 \<and>
        map_of (model_idx_in_list s') k = map_of (model_idx_in_list s) k \<and>
        nodes_of s' k = nodes_of s k) \<and>
     (matched_in cp s obs k \<longrightarrow>
        map_of (tracked_models s') k = Some p \<and> map_of (frames_lost s') k = Some 0)"
proof -
  have wf: "well_formed s" using assms(1) by (rule reached_well_formed)
  obtain s' where s': "updateObstacles cp s obs = Some s'"
    and c1: "\<not> matched_in cp s obs k \<and> 10 \<le> map_at (frames_lost s) k + 1 \<longrightarrow>
        purged s' k \<and>
        (\<forall>pos. map_of (model_idx_in_list s) k = Some pos \<longrightarrow>
           pos \<notin> fst ` set (materialized_models s'))"
    and c2: "\<not> matched_in cp s obs k \<and> map_at (frames_lost s) k + 1 < 10 \<longrightarrow>
        map_of (tracked_models s') k = Some p \<and>
        map_of (frames_lost s') k = Some (map_at (frames_lost s) k + 1) \<and>
        map_of (frames_found s') k = Some 0 \<and>
        map_of (model_idx_in_list s') k = map_of (model_idx_in_list s) k \<and>
        nodes_of s' k = nodes_of s k"
    and c3: "matched_in cp s obs k \<and> map_of (model_idx_in_list s) k = None \<and>
      5 \<le> map_at (frames_found s) k + 1 \<longrightarrow>
        map_of (tracked_models s') k = Some p \<and>
        map_of (frames_lost s') k = Some 0 \<and>
        map_of (frames_found s') k = None \<and>
        (\<exists>pos. map_of (model_idx_in_list s') k = Some pos \<and> nodes_of s' k = [(pos, p)])"
    and c4: "matched_in cp s obs k \<and> map_of (model_idx_in_list s) k = None \<and>
      map_at (frames_found s) k + 1 < 5 \<longrightarrow>
        map_of (tracked_models s') k = Some p \<and>
        map_of (frames_lost s') k = Some 0 \<and>
        map_of (frames_found s') k = Some (map_at (frames_found s) k + 1) \<and>
        map_of (model_idx_in_list s') k = None"
    and c5: "matched_in cp s obs k \<and> map_of (model_idx_in_list s) k \<noteq> None \<longrightarrow>
        map_of (tracked_models s') k = Some p \<and>
        map_of (frames_lost s') k = Some 0 \<and>
        map_of (frames_found s') k = map_of (frames_found s) k \<and>
        map_of (model_idx_in_list s') k = map_of (model_idx_in_list s) k \<and>
        nodes_of s' k = nodes_of s k"
    using updateObstacles_identity[OF wf assms(2), of cp obs] by blast
  have m: "matched_in cp s obs k \<longrightarrow>
        map_of (tracked_models s') k = Some p \<and> map_of (frames_lost s') k = Some 0"
  proof
    assume a: "matched_in cp s obs k"
    consider "map_of (model_idx_in_list s) k \<noteq> None"
      | "map_of (model_idx_in_list s) k = None" "5 \<le> map_at (frames_found s) k + 1"
      | "map_of (model_idx_in_list s) k = None" "map_at (frames_found s) k + 1 < 5"
      by linarith
    then show "map_of (tracked_models s') k = Some p \<and> map_of (frames_lost s') k = Some 0"
      using a c3 c4 c5 by cases simp_all
  qed
  have c2': "\<not> matched_in cp s obs k \<and> map_at (frames_lost s) k + 1 \<le> 9 \<longrightarrow>
        map_of (tracked_models s') k = Some p \<and>
        map_of (frames_lost s') k = Some (map_at (frames_lost s) k + 1) \<and>
        map_of (frames_found s') k = Some 0 \<and>
        map_of (model_idx_in_list s') k = map_of (model_idx_in_list s) k \<and>
        nodes_of s' k = nodes_of s k"
    using c2 by simp
  show ?thesis using s' c1 c2' m by (intro exI[of _ s']) (simp only: simp_thms)
qed

text \<open>
  Claim C4, as the code has it. In every state reached from the constructor, for every
  tracked identity \<open>k\<close> with tracked object \<open>p\<close>:

  \<^item> if \<open>k\<close> has a recorded position, its found-streak is 0 and the one node of the list
    at that position holds \<open>p\<close>; the list has one node for each identity with a recorded
    position and no other node;
  \<^item> the frame returns, and the list after it is the list before it without the nodes
    of the identities evicted in the frame, in the same order, followed by the nodes
    added in the frame, whose handles are new; the list after it again has the
    recorded positions as its handles;
  \<^item> if \<open>k\<close> has no recorded position and the frame takes its found-streak to 5 or
    more, its found-streak is erased, its position is recorded and its node, holding
    \<open>p\<close>, is among the nodes added at the end of the list;
  \<^item> if \<open>k\<close> has no recorded position and the frame takes its found-streak to 4 or
    less, or does not match it, it has no recorded position after the frame;
  \<^item> if \<open>k\<close> has a recorded position and the frame matches it or leaves its
    lost-streak at 9 or less, it keeps its position and its node, which is none of the
    added ones, and its found-streak after the frame is 0;
  \<^item> if \<open>k\<close> has a recorded position and the frame takes its lost-streak to 10, its
    position is erased and no node of the list has its handle.

  For one obstacle at the same place in each of five frames, the list handed on has
  length 0 after the frames 1 to 4 and length 1 after frame 5.
\<close>

theorem promotion_boundary:
  assumes "run cp (SmoothObstacleAggregator h) frames = Some s"
    and "map_of (tracked_models s) k = Some p"
  shows "(\<forall>pos. map_of (model_idx_in_list s) k = Some pos \<longrightarrow>
            map_at (frames_found s) k = 0 \<and> nodes_of s k = [(pos, p)]) \<and>
     fst ` set (materialized_models s) = snd ` set (model_idx_in_list s) \<and>
     length (materialized_models s) = length (model_idx_in_list s) \<and>
     (\<exists>s' new. updateObstacles cp s obs = Some s' \<and>
        materialized_models s' =
          filter (\<lambda>n. fst n \<in> fst ` set (materialized_models s')) (materialized_models s) @ new \<and>
        (\<forall>n \<in> set new. fst n \<notin> fst ` set (materialized_models s)) \<and>
        fst ` set (materialized_models s') = snd ` set (model_idx_in_list s') \<and>
        (map_of (model_idx_in_list s) k = None \<and> matched_in cp s obs k \<and>
         5 \<le> map_at (frames_found s) k + 1 \<longrightarrow>
           map_of (frames_found s') k = None \<and>
           (\<exists>pos. map_of (model_idx_in_list s') k = Some pos \<and> nodes_of s' k = [(pos, p)] \<and>
              (pos, p) \<in> set new)) \<and>
        (map_of (model_idx_in_list s) k = None \<and> matched_in cp s obs k \<and>
         map_at (frames_found s) k + 1 \<le> 4 \<longrightarrow>
           map_of (frames_found s') k = Some (map_at (frames_found s) k + 1) \<and>
           map_of (model_idx_in_list s') k = None) \<and>
        (map_of (model_idx_in_list s) k = None \<and> \<not> matched_in cp s obs k \<longrightarrow>
           map_of (model_idx_in_list s') k = None) \<and>
        (\<forall>pos. map_of (model_idx_in_list s) k = Some pos \<and>
           (matched_in cp s obs k \<or> map_at (frames_lost s) k + 1 \<le> 9) \<longrightarrow>
           map_of (model_idx_in_list s') k = Some pos \<and> nodes_of s' k = [(pos, p)] \<and>
           map_at (frames_found s') k = 0 \<and> (pos, p) \<notin> set new) \<and>
        (\<forall>pos. map_of (model_idx_in_list s) k = Some pos \<and> \<not> matched_in cp s obs k \<and>
           10 \<le> map_at (frames_lost s) k + 1 \<longrightarrow>
           map_of (model_idx_in_list s') k = None \<and>
           pos \<notin> fst ` set (materialized_models s'))) \<and>
     map (\<lambda>n. map_option (\<lambda>s'. length (copyMaterialized s'))
                (run centroid (SmoothObstacleAggregator h0) (take n [[1], [2], [3], [4], [5]])))
       [1, 2, 3, 4, 5]
       = [Some 0, Some 0, Some 0, Some 0, Some 1]"
proof -
  have wf: "well_formed s" using assms(1) by (rule reached_well_formed)
  have J0: "map_at (frames_found s) k = 0" if "map_of (model_idx_in_list s) k = Some pos" for pos
  proof -
    have "(k, pos) \<in> set (model_idx_in_list s)" using that by (rule map_of_SomeD)
    then have "map_at (frames_found s) (fst (k, pos)) = 0"
      using wf unfolding well_formed_def by blast
    then show ?thesis by simp
  qed
  have J: "\<forall>pos. map_of (model_idx_in_list s) k = Some pos \<longrightarrow>
            map_at (frames_found s) k = 0 \<and> nodes_of s k = [(pos, p)]"
    using J0 reached_node_of[OF assms] by blast
  have N: "fst ` set (materialized_models s) = snd ` set (model_idx_in_list s)"
    "length (materialized_models s) = length (model_idx_in_list s)"
    using reached_one_node_each[OF assms(1)] by simp_all
  obtain s' where s': "updateObstacles cp s obs = Some s'"
    and c1: "\<not> matched_in cp s obs k \<and> 10 \<le> map_at (frames_lost s) k + 1 \<longrightarrow>
        purged s' k \<and>
        (\<forall>pos. map_of (model_idx_in_list s) k = Some pos \<longrightarrow>
           pos \<notin> fst ` set (materialized_models s'))"
    and c2: "\<not> matched_in cp s obs k \<and> map_at (frames_lost s) k + 1 < 10 \<longrightarrow>
        map_of (tracked_models s') k = Some p \<and>
        map_of (frames_lost s') k = Some (map_at (frames_lost s) k + 1) \<and>
        map_of (frames_found s') k = Some 0 \<and>
        map_of (model_idx_in_list s') k = map_of (model_idx_in_list s) k \<and>
        nodes_of s' k = nodes_of s k"
    and c3: "matched_in cp s obs k \<and> map_of (model_idx_in_list s) k = None \<and>
      5 \<le> map_at (frames_found s) k + 1 \<longrightarrow>
        map_of (tracked_models s') k = Some p \<and>
        map_of (frames_lost s') k = Some 0 \<and>
        map_of (frames_found s') k = None \<and>
        (\<exists>pos. map_of (model_idx_in_list s') k = Some pos \<and> nodes_of s' k = [(pos, p)] \<and>
           list_nodes s \<le> pos)"
    and c4: "matched_in cp s obs k \<and> map_of (model_idx_in_list s) k = None \<and>
      map_at (frames_found s) k + 1 < 5 \<longrightarrow>
        map_of (tracked_models s') k = Some p \<and>
        map_of (frames_lost s') k = Some 0 \<and>
        map_of (frames_found s') k = Some (map_at (frames_found s) k + 1) \<and>
        map_of (model_idx_in_list s') k = None"
    and c5: "matched_in cp s obs k \<and> map_of (model_idx_in_list s) k \<noteq> None \<longrightarrow>
        map_of (tracked_models s') k = Some p \<and>
        map_of (frames_lost s') k = Some 0 \<and>
        map_of (frames_found s') k = map_of (frames_found s) k \<and>
        map_of (model_idx_in_list s') k = map_of (model_idx_in_list s) k \<and>
        nodes_of s' k = nodes_of s k"
    using updateObstacles_identity[OF wf assms(2), of cp obs] by blast
  obtain new where l': "materialized_models s' =
       filter (\<lambda>n. fst n \<in> fst ` set (materialized_models s')) (materialized_models s) @ new"
    and above: "\<forall>n \<in> set new. list_nodes s \<le> fst n"
    using updateObstacles_list[OF wf s'] by blast
  have below: "\<forall>n \<in> set (materialized_models s). fst n < list_nodes s"
    using wf by (simp add: well_formed_def)
  have fresh: "\<forall>n \<in> set new. fst n \<notin> fst ` set (materialized_models s)"
    using above below by fastforce
  have "run cp (SmoothObstacleAggregator h) (frames @ [obs]) = Some s'"
    using assms(1) s' by (simp add: run_append)
  then have N': "fst ` set (materialized_models s') = snd ` set (model_idx_in_list s')"
    using reached_one_node_each by blast
  have u: "map_of (model_idx_in_list s) k = None \<and> \<not> matched_in cp s obs k \<longrightarrow>
           map_of (model_idx_in_list s') k = None"
  proof
    assume a: "map_of (model_idx_in_list s) k = None \<and> \<not> matched_in cp s obs k"
    consider "10 \<le> map_at (frames_lost s) k + 1" | "map_at (frames_lost s) k + 1 < 10" by linarith
    then show "map_of (model_idx_in_list s') k = None"
      using a c1 c2 by cases (simp_all add: purged_def)
  qed
  have pr: "map_of (model_idx_in_list s) k = None \<and> matched_in cp s obs k \<and>
         5 \<le> map_at (frames_found s) k + 1 \<longrightarrow>
           map_of (frames_found s') k = None \<and>
           (\<exists>pos. map_of (model_idx_in_list s') k = Some pos \<and> nodes_of s' k = [(pos, p)] \<and>
              (pos, p) \<in> set new)"
  proof
    assume a: "map_of (model_idx_in_list s) k = None \<and> matched_in cp s obs k \<and>
         5 \<le> map_at (frames_found s) k + 1"
    then obtain pos where f: "map_of (frames_found s') k = None"
      and pos: "map_of (model_idx_in_list s') k = Some pos" "nodes_of s' k = [(pos, p)]"
        "list_nodes s \<le> pos"
      using c3 by auto
    have "filter (\<lambda>n. fst n = pos) (materialized_models s') = [(pos, p)]"
      using pos(1,2) by (simp add: nodes_of_def)
    then have "(pos, p) \<in> set (filter (\<lambda>n. fst n = pos) (materialized_models s'))" by simp
    then have "(pos, p) \<in> set (materialized_models s')" by simp
    then have "(pos, p) \<in> set (filter (\<lambda>n. fst n \<in> fst ` set (materialized_models s'))
        (materialized_models s)) \<or> (pos, p) \<in> set new"
      using l' by (metis Un_iff set_append)
    moreover have "(pos, p) \<notin> set (materialized_models s)" using below pos(3) by fastforce
    ultimately have "(pos, p) \<in> set new" by simp
    then show "map_of (frames_found s') k = None \<and>
           (\<exists>pos. map_of (model_idx_in_list s') k = Some pos \<and> nodes_of s' k = [(pos, p)] \<and>
              (pos, p) \<in> set new)"
      using f pos by blast
  qed
  have q: "map_of (model_idx_in_list s) k = None \<and> matched_in cp s obs k \<and>
         map_at (frames_found s) k + 1 \<le> 4 \<longrightarrow>
           map_of (frames_found s') k = Some (map_at (frames_found s) k + 1) \<and>
           map_of (model_idx_in_list s') k = None"
    using c4 by simp
  have kept: "\<forall>pos. map_of (model_idx_in_list s) k = Some pos \<and>
           (matched_in cp s obs k \<or> map_at (frames_lost s) k + 1 \<le> 9) \<longrightarrow>
           map_of (model_idx_in_list s') k = Some pos \<and> nodes_of s' k = [(pos, p)] \<and>
           map_at (frames_found s') k = 0 \<and> (pos, p) \<notin> set new"
  proof (intro allI impI)
    fix pos
    assume a: "map_of (model_idx_in_list s) k = Some pos \<and>
           (matched_in cp s obs k \<or> map_at (frames_lost s) k + 1 \<le> 9)"
    then have pos: "map_of (model_idx_in_list s) k = Some pos" by simp
    have n: "nodes_of s k = [(pos, p)]" and f0: "map_at (frames_found s) k = 0"
      using J pos by simp_all
    have "(pos, p) \<in> set (filter (\<lambda>n. fst n = pos) (materialized_models s))"
      using n pos by (simp add: nodes_of_def)
    then have "pos \<in> fst ` set (materialized_models s)" by force
    then have nn: "(pos, p) \<notin> set new" using fresh by force
    have "map_of (model_idx_in_list s') k = map_of (model_idx_in_list s) k \<and>
        nodes_of s' k = nodes_of s k \<and> map_at (frames_found s') k = 0"
    proof (cases "matched_in cp s obs k")
      case True
      then have "map_of (frames_found s') k = map_of (frames_found s) k"
        "map_of (model_idx_in_list s') k = map_of (model_idx_in_list s) k"
        "nodes_of s' k = nodes_of s k"
        using c5 pos by simp_all
      then show ?thesis using f0 by (simp add: map_at_def)
    next
      case False
      then have "map_at (frames_lost s) k + 1 < 10" using a by simp
      then have "map_of (frames_found s') k = Some 0"
        "map_of (model_idx_in_list s') k = map_of (model_idx_in_list s) k"
        "nodes_of s' k = nodes_of s k"
        using c2 False by simp_all
      then show ?thesis by (simp add: map_at_def)
    qed
    then show "map_of (model_idx_in_list s') k = Some pos \<and> nodes_of s' k = [(pos, p)] \<and>
           map_at (frames_found s') k = 0 \<and> (pos, p) \<notin> set new"
      using pos n nn by simp
  qed
  have ev: "\<forall>pos. map_of (model_idx_in_list s) k = Some pos \<and> \<not> matched_in cp s obs k \<and>
           10 \<le> map_at (frames_lost s) k + 1 \<longrightarrow>
           map_of (model_idx_in_list s') k = None \<and>
           pos \<notin> fst ` set (materialized_models s')"
    using c1 by (simp add: purged_def)
  have frame: "\<exists>s' new. updateObstacles cp s obs = Some s' \<and>
        materialized_models s' =
          filter (\<lambda>n. fst n \<in> fst ` set (materialized_models s')) (materialized_models s) @ new \<and>
        (\<forall>n \<in> set new. fst n \<notin> fst ` set (materialized_models s)) \<and>
        fst ` set (materialized_models s') = snd ` set (model_idx_in_list s') \<and>
        (map_of (model_idx_in_list s) k = None \<and> matched_in cp s obs k \<and>
         5 \<le> map_at (frames_found s) k + 1 \<longrightarrow>
           map_of (frames_found s') k = None \<and>
           (\<exists>pos. map_of (model_idx_in_list s') k = Some pos \<and> nodes_of s' k = [(pos, p)] \<and>
              (pos, p) \<in> set new)) \<and>
        (map_of (model_idx_in_list s) k = None \<and> matched_in cp s obs k \<and>
         map_at (frames_found s) k + 1 \<le> 4 \<longrightarrow>
           map_of (frames_found s') k = Some (map_at (frames_found s) k + 1) \<and>
           map_of (model_idx_in_list s') k = None) \<and>
        (map_of (model_idx_in_list s) k = None \<and> \<not> matched_in cp s obs k \<longrightarrow>
           map_of (model_idx_in_list s') k = None) \<and>
        (\<forall>pos. map_of (model_idx_in_list s) k = Some pos \<and>
           (matched_in cp s obs k \<or> map_at (frames_lost s) k + 1 \<le> 9) \<longrightarrow>
           map_of (model_idx_in_list s') k = Some pos \<and> nodes_of s' k = [(pos, p)] \<and>
           map_at (frames_found s') k = 0 \<and> (pos, p) \<notin> set new) \<and>
        (\<forall>pos. map_of (model_idx_in_list s) k = Some pos \<and> \<not> matched_in cp s obs k \<and>
           10 \<le> map_at (frames_lost s) k + 1 \<longrightarrow>
           map_of (model_idx_in_list s') k = None \<and>
           pos \<notin> fst ` set (materialized_models s'))"
    apply (rule exI[of _ s'])
    apply (rule exI[of _ new])
    apply (intro conjI)
    apply (rule s')
    apply (rule l')
    apply (rule fresh)
    apply (rule N')
    apply (rule pr)
    apply (rule q)
    apply (rule u)
    apply (rule kept)
    apply (rule ev)
    done
  have scen: "map (\<lambda>n. map_option (\<lambda>s'. length (copyMaterialized s'))
                (run centroid (SmoothObstacleAggregator h0) (take n [[1], [2], [3], [4], [5]])))
       [1, 2, 3, 4, 5]
       = [Some 0, Some 0, Some 0, Some 0, Some 1]"
    by (simp add: run_defs h0_def sphere_at_def)
  show ?thesis
    apply (intro conjI)
    apply (rule J)
    apply (rule N(1))
    apply (rule N(2))
    apply (rule frame)
    apply (rule scen)
    done
qed

lemma fourth_state_reached:
  "run centroid (SmoothObstacleAggregator h0) [[1], [2], [3], [4]] = Some fourth_state"
  by (simp add: run_defs fourth_state_def h0_def sphere_at_def fun_eq_iff)

lemma missed_state_reached:
  "run centroid (SmoothObstacleAggregator h0) [[1], [2], [3], [4], [5], []] = Some missed_state"
  using confirmed_state_reached run_append[of centroid "SmoothObstacleAggregator h0" "[[1], [2], [3], [4], [5]]" "[[]]"]
  by (simp add: run_defs confirmed_state_def missed_state_def h0_def sphere_at_def fun_eq_iff)

lemma lost_frame:
  "n < 9 \<Longrightarrow> updateObstacles centroid (missed_state\<lparr>frames_lost := [(0, n)], frame_cnt := c\<rparr>) []
     = Some (missed_state\<lparr>frames_lost := [(0, n + 1)], frame_cnt := c + 1\<rparr>)"
  by (simp add: run_defs missed_state_def h0_def sphere_at_def fun_eq_iff)

lemma lost_state_reached:
  "run centroid (SmoothObstacleAggregator h0)
     ([[1], [2], [3], [4], [5], []] @ [[], [], [], [], [], [], [], []]) = Some lost_state"
proof -
  have "run centroid missed_state [[], [], [], [], [], [], [], []] = Some lost_state"
    using lost_frame[of 1 6] lost_frame[of 2 7] lost_frame[of 3 8] lost_frame[of 4 9]
      lost_frame[of 5 10] lost_frame[of 6 11] lost_frame[of 7 12] lost_frame[of 8 13]
    by (simp add: missed_state_def lost_state_def)
  then show ?thesis using missed_state_reached by (simp only: run_append option.case)
qed

theorem eviction_boundary_witness:
  "run centroid (SmoothObstacleAggregator h0)
     ([[1], [2], [3], [4], [5], []] @ [[], [], [], [], [], [], [], []]) = Some lost_state
   \<and> map_of (tracked_models lost_state) 0 = Some 1
   \<and> \<not> matched_in centroid lost_state [] 0
   \<and> 10 \<le> map_at (frames_lost lost_state) 0 + 1
   \<and> updateObstacles centroid lost_state [] = Some evicted_state
   \<and> purged evicted_state 0
   \<and> map_of (model_idx_in_list lost_state) 0 = Some 0
   \<and> 0 \<notin> fst ` set (materialized_models evicted_state)
   \<and> run centroid (SmoothObstacleAggregator h0) [[1], [2], [3], [4], [5], []] = Some missed_state
   \<and> map_at (frames_lost missed_state) 0 + 1 \<le> 9
   \<and> updateObstacles centroid missed_state []
       = Some (missed_state\<lparr>frames_lost := [(0, 2)], frame_cnt := 7\<rparr>)
   \<and> matched_in centroid missed_state [7] 0
   \<and> updateObstacles centroid missed_state [7]
       = Some (missed_state\<lparr>frames_lost := [(0, 0)], frame_cnt := 7\<rparr>)"
  using eviction_boundary[OF lost_state_reached, of 0 1 "[]"]
    eviction_boundary[OF missed_state_reached, of 0 1 "[]"]
    eviction_boundary[OF missed_state_reached, of 0 1 "[7]"]
    lost_state_reached missed_state_reached
  by (simp add: run_defs match_of_defs matched_in_def purged_def lost_state_def evicted_state_def
      missed_state_def h0_def sphere_at_def fun_eq_iff)

theorem promotion_boundary_witness:
  "run centroid (SmoothObstacleAggregator h0) [[1], [2], [3], [4]] = Some fourth_state
   \<and> map_of (tracked_models fourth_state) 0 = Some 1
   \<and> map_of (model_idx_in_list fourth_state) 0 = None
   \<and> matched_in centroid fourth_state [5] 0
   \<and> 5 \<le> map_at (frames_found fourth_state) 0 + 1
   \<and> updateObstacles centroid fourth_state [5] = Some confirmed_state
   \<and> materialized_models confirmed_state = materialized_models fourth_state @ [(0, 1)]
   \<and> map_of (frames_found confirmed_state) 0 = None
   \<and> map_of (model_idx_in_list confirmed_state) 0 = Some 0
   \<and> nodes_of confirmed_state 0 = [(0, 1)]
   \<and> \<not> matched_in centroid fourth_state [] 0
   \<and> updateObstacles centroid fourth_state []
       = Some (fourth_state\<lparr>frames_found := [(0, 0)], frames_lost := [(0, 1)], frame_cnt := 5\<rparr>)
   \<and> run centroid (SmoothObstacleAggregator h0) [[1], [2], [3], [4], [5]] = Some confirmed_state
   \<and> map_of (tracked_models confirmed_state) 0 = Some 1
   \<and> map_at (frames_found confirmed_state) 0 = 0
   \<and> \<not> matched_in centroid confirmed_state [] 0
   \<and> map_at (frames_lost confirmed_state) 0 + 1 \<le> 9
   \<and> updateObstacles centroid confirmed_state [] = Some missed_state
   \<and> map_of (model_idx_in_list missed_state) 0 = Some 0
   \<and> nodes_of missed_state 0 = [(0, 1)]
   \<and> map_at (frames_found missed_state) 0 = 0
   \<and> materialized_models missed_state = materialized_models confirmed_state @ []"
  using promotion_boundary[OF fourth_state_reached, of 0 1 "[5]"]
    promotion_boundary[OF fourth_state_reached, of 0 1 "[]"]
    promotion_boundary[OF confirmed_state_reached, of 0 1 "[]"]
    fourth_state_reached confirmed_state_reached
  by (simp add: run_defs match_of_defs matched_in_def nodes_of_def fourth_state_def
      confirmed_state_def missed_state_def h0_def sphere_at_def fun_eq_iff)

text \<open>
  Claim C4 as stated fails: after five frames with an obstacle and one without,
  identity 0 has found-streak 0, which is at most 4, and it is in the list of
  materialized objects that the aggregator hands on.
\<close>

theorem found_streak_counterexample:
  "run centroid (SmoothObstacleAggregator h0) [[1], [2], [3], [4], [5], []] = Some missed_state
   \<and> map_of (tracked_models missed_state) 0 = Some 1
   \<and> map_of (frames_found missed_state) 0 = Some 0
   \<and> map_of (model_idx_in_list missed_state) 0 = Some 0
   \<and> materialized_models missed_state = [(0, 1)]
   \<and> copyMaterialized missed_state = [1]"
  using missed_state_reached by (simp add: missed_state_def copyMaterialized_def)

end
